theory Spec2Isabelle
  imports Complex_Main
begin

section \<open>The ImageNet downloader: data model\<close>

text \<open>
  The development follows \<^verbatim>\<open>src/imagenet/__init__.py\<close>. A Python \<^verbatim>\<open>bytes\<close> value is a list
  of 8-bit characters; a Python \<^verbatim>\<open>str\<close> is represented by its UTF-8 encoding, so that
  \<^verbatim>\<open>s.encode("utf-8")\<close> is the identity and \<^verbatim>\<open>b.decode()\<close> is a validity check.
\<close>

type_synonym bytes = string

text \<open>
  The exception classes the program names or can meet. \<^verbatim>\<open>socket.error\<close> and \<^verbatim>\<open>IOError\<close> are
  both aliases of \<^verbatim>\<open>OSError\<close>; \<^verbatim>\<open>socket.timeout\<close> (imported under the name
  \<^verbatim>\<open>TimeoutError\<close>) is a subclass of it, and so are \<^verbatim>\<open>URLError\<close> and the file system errors.
\<close>

datatype exn =
    HTTPError | HTTPException | CertificateError
  | URLError | TimeoutError | OSError
  | FileNotFoundError | FileExistsError | IsADirectoryError | NotADirectoryError
  | ValueError | TypeError | UnicodeDecodeError

text \<open>
  What a method raises. \<^verbatim>\<open>DownloadError\<close> has the field \<^verbatim>\<open>message\<close> its constructor sets
  (line 22), and, as every Python 3 exception, the attribute \<^verbatim>\<open>__context__\<close>: the interpreter
  sets it to the exception being handled when the \<^verbatim>\<open>raise\<close> stands inside an \<^verbatim>\<open>except\<close>
  block, and leaves it \<^verbatim>\<open>None\<close> otherwise. Any other exception propagates as it is.
\<close>

datatype error = DownloadError (message: string) (dunder_context: "exn option") | Raised exn

text \<open>The first \<^verbatim>\<open>except\<close> clause of \<^verbatim>\<open>download_wnid\<close> (line 117).\<close>

fun protocol_failure :: "exn \<Rightarrow> bool" where
  "protocol_failure HTTPError = True"
| "protocol_failure HTTPException = True"
| "protocol_failure CertificateError = True"
| "protocol_failure _ = False"

text \<open>
  The second clause (line 121): \<^verbatim>\<open>URLError\<close>, \<^verbatim>\<open>socket.timeout\<close>, \<^verbatim>\<open>socket.error\<close>,
  \<^verbatim>\<open>IOError\<close>, that is every instance of \<^verbatim>\<open>OSError\<close>. It is tried only when the first
  clause did not match.
\<close>

fun is_oserror :: "exn \<Rightarrow> bool" where
  "is_oserror URLError = True"
| "is_oserror HTTPError = True"
| "is_oserror CertificateError = True"
| "is_oserror TimeoutError = True"
| "is_oserror OSError = True"
| "is_oserror FileNotFoundError = True"
| "is_oserror FileExistsError = True"
| "is_oserror IsADirectoryError = True"
| "is_oserror NotADirectoryError = True"
| "is_oserror _ = False"

definition transport_failure :: "exn \<Rightarrow> bool" where
  "transport_failure x = (is_oserror x \<and> \<not> protocol_failure x)"

text \<open>
  One attempt, lines 111 to 115: \<^verbatim>\<open>urlopen\<close> returns a handle whose \<^verbatim>\<open>read()\<close> gives the
  body, or returns \<^verbatim>\<open>None\<close>, or one of \<^verbatim>\<open>urlopen\<close>, \<^verbatim>\<open>read\<close> and \<^verbatim>\<open>close\<close> raises.
\<close>

datatype response = Body bytes | NoHandle | Raises exn

datatype node = File bytes | Dir

text \<open>What the program does to the outside, in program order.\<close>

datatype event =
    Urlopen string real
  | Sleep real
  | Write string bytes
  | Mkdir string

record world =
  fs :: "string \<Rightarrow> node option"
  trace :: "event list"

text \<open>The fields of \<^verbatim>\<open>ImagenetDownloader\<close> that the modelled methods read.\<close>

record config =
  path :: string
  timeout :: real
  retry :: int
  sleep :: real
  input_encoding :: "string option"
  synset_original_url :: string

text \<open>
  What lies outside the source file: the two constants of \<^verbatim>\<open>imagenet.conf.apikeys\<close> (line
  13), \<^verbatim>\<open>CURR_DIR\<close> (line 16), the network, and the two host checks of \<^verbatim>\<open>urlsplit\<close>
  that need the \<^verbatim>\<open>ipaddress\<close> and \<^verbatim>\<open>unicodedata\<close> modules. The network answers the
  \<open>k\<close>-th call of \<^verbatim>\<open>urlopen\<close> of a run, for the URL and timeout it is given.
\<close>

record environment =
  imagenet_username :: "string option"
  imagenet_accesskey :: "string option"
  curr_dir :: string
  urlopen :: "nat \<Rightarrow> string \<Rightarrow> real \<Rightarrow> response"
  bracketed_host_ok :: "string \<Rightarrow> bool"
  nfkc_ok :: "string \<Rightarrow> bool"

fun is_urlopen :: "event \<Rightarrow> bool" where
  "is_urlopen (Urlopen _ _) = True"
| "is_urlopen _ = False"

fun is_sleep :: "event \<Rightarrow> bool" where
  "is_sleep (Sleep _) = True"
| "is_sleep _ = False"

fun is_mkdir :: "event \<Rightarrow> bool" where
  "is_mkdir (Mkdir _) = True"
| "is_mkdir _ = False"

definition gets :: "world \<Rightarrow> nat" where
  "gets w = length (filter is_urlopen (trace w))"

definition sleeps :: "world \<Rightarrow> nat" where
  "sleeps w = length (filter is_sleep (trace w))"

definition emit :: "event \<Rightarrow> world \<Rightarrow> world" where
  "emit ev w = w\<lparr>trace := trace w @ [ev]\<rparr>"

section \<open>The fetcher\<close>

text \<open>\<^verbatim>\<open>time.sleep(secs)\<close> raises \<^verbatim>\<open>ValueError\<close> for a negative length.\<close>

definition time_sleep :: "real \<Rightarrow> world \<Rightarrow> (error + unit) \<times> world" where
  "time_sleep secs w =
     (if secs < 0 then (Inl (Raised ValueError), w) else (Inr (), emit (Sleep secs) w))"

text \<open>
  The loop of \<^verbatim>\<open>download_wnid\<close> (lines 109 to 125), with \<^verbatim>\<open>count\<close> as its argument. The
  \<^verbatim>\<open>DownloadError\<close> of line 113 is raised inside the \<^verbatim>\<open>try\<close> and matches neither clause.
\<close>

function download_loop ::
  "environment \<Rightarrow> config \<Rightarrow> string \<Rightarrow> int \<Rightarrow> world \<Rightarrow> (error + bytes) \<times> world" where
  "download_loop e c url count w =
     (let w1 = emit (Urlopen url (timeout c)) w in
      case urlopen e (gets w) url (timeout c) of
        Body content \<Rightarrow> (Inr content, w1)
      | NoHandle \<Rightarrow> (Inl (DownloadError (''Cannot open URL'' @ url) None), w1)
      | Raises x \<Rightarrow>
          if protocol_failure x then
            (if count + 1 > retry c then (Inl (DownloadError [] (Some x)), w1)
             else download_loop e c url (count + 1) w1)
          else if is_oserror x then
            (if count + 1 > retry c then (Inl (DownloadError [] (Some x)), w1)
             else (case time_sleep (sleep c) w1 of
                     (Inl err, w2) \<Rightarrow> (Inl err, w2)
                   | (Inr u, w2) \<Rightarrow> download_loop e c url (count + 1) w2))
          else (Inl (Raised x), w1))"
  by pat_completeness auto
termination
  by (relation "measure (\<lambda>(e, c, url, count, w). nat (retry c - count))") auto

declare download_loop.simps [simp del]

definition download_wnid ::
  "environment \<Rightarrow> config \<Rightarrow> string \<Rightarrow> world \<Rightarrow> (error + bytes) \<times> world" where
  "download_wnid e c url w = download_loop e c url 0 w"


section \<open>Strings, paths and files\<close>

text \<open>The whitespace \<^verbatim>\<open>bytes.strip()\<close> removes: tab, line feed, vertical tab, form feed,
  carriage return and space.\<close>

definition ascii_space :: "char \<Rightarrow> bool" where
  "ascii_space ch = ((of_char ch :: nat) \<in> {9, 10, 11, 12, 13, 32})"

definition bytes_strip :: "bytes \<Rightarrow> bytes" where
  "bytes_strip b = rev (dropWhile ascii_space (rev (dropWhile ascii_space b)))"

text \<open>
  \<^verbatim>\<open>f.readline()\<close> on the bytes not yet read: the line with its line feed, and what is left.
  At the end of the file the line is empty.
\<close>

definition readline :: "bytes \<Rightarrow> bytes \<times> bytes" where
  "readline b =
     (let body = takeWhile (\<lambda>ch. ch \<noteq> CHR 0x0A) b; rest = dropWhile (\<lambda>ch. ch \<noteq> CHR 0x0A) b
      in (body @ take 1 rest, drop 1 rest))"

text \<open>
  \<^verbatim>\<open>bytes.decode()\<close> is strict UTF-8. \<open>utf8_step\<close> reads one well-formed code point (the
  byte ranges of the Unicode standard: no overlong form, no surrogate, nothing above
  U+10FFFF) and returns the bytes after it.
\<close>

fun utf8_tail :: "nat \<Rightarrow> nat \<Rightarrow> nat \<Rightarrow> bytes \<Rightarrow> bytes option" where
  "utf8_tail lo hi 0 (b # r) =
     (if lo \<le> (of_char b :: nat) \<and> (of_char b :: nat) \<le> hi then Some r else None)"
| "utf8_tail lo hi (Suc n) (b # r) =
     (if lo \<le> (of_char b :: nat) \<and> (of_char b :: nat) \<le> hi then utf8_tail 0x80 0xBF n r else None)"
| "utf8_tail lo hi n [] = None"

definition utf8_step :: "bytes \<Rightarrow> bytes option" where
  "utf8_step b =
     (case b of
        [] \<Rightarrow> None
      | a # r \<Rightarrow>
         (let k = (of_char a :: nat) in
          if k < 0x80 then Some r
          else if 0xC2 \<le> k \<and> k \<le> 0xDF then utf8_tail 0x80 0xBF 0 r
          else if k = 0xE0 then utf8_tail 0xA0 0xBF 1 r
          else if k = 0xED then utf8_tail 0x80 0x9F 1 r
          else if 0xE1 \<le> k \<and> k \<le> 0xEF then utf8_tail 0x80 0xBF 1 r
          else if k = 0xF0 then utf8_tail 0x90 0xBF 2 r
          else if 0xF1 \<le> k \<and> k \<le> 0xF3 then utf8_tail 0x80 0xBF 2 r
          else if k = 0xF4 then utf8_tail 0x80 0x8F 2 r
          else None))"

lemma utf8_tail_shorter: "utf8_tail lo hi n b = Some r \<Longrightarrow> length r < length b"
  by (induction lo hi n b rule: utf8_tail.induct) (auto split: if_splits)

lemma utf8_step_shorter: "utf8_step b = Some r \<Longrightarrow> length r < length b"
  by (auto simp: utf8_step_def Let_def split: list.splits if_splits dest: utf8_tail_shorter)

function utf8_valid :: "bytes \<Rightarrow> bool" where
  "utf8_valid b =
     (if b = [] then True
      else (case utf8_step b of None \<Rightarrow> False | Some r \<Rightarrow> utf8_valid r))"
  by pat_completeness auto
termination
  by (relation "measure length") (auto dest: utf8_step_shorter)

declare utf8_valid.simps [simp del]

definition decode :: "bytes \<Rightarrow> exn + string" where
  "decode b = (if utf8_valid b then Inr b else Inl UnicodeDecodeError)"

text \<open>
  \<^verbatim>\<open>str.strip()\<close> removes the code points for which \<^verbatim>\<open>str.isspace()\<close> holds, at both ends.
  These are their UTF-8 encodings: U+0009 to U+000D, U+001C to U+0020, U+0085, U+00A0,
  U+1680, U+2000 to U+200A, U+2028, U+2029, U+202F, U+205F and U+3000.
\<close>

definition unicode_spaces :: "string list" where
  "unicode_spaces =
     map (\<lambda>k. [char_of (k :: nat)]) [0x09, 0x0A, 0x0B, 0x0C, 0x0D, 0x1C, 0x1D, 0x1E, 0x1F, 0x20]
     @ [[CHR 0xC2, CHR 0x85], [CHR 0xC2, CHR 0xA0], [CHR 0xE1, CHR 0x9A, CHR 0x80]]
     @ map (\<lambda>k. [CHR 0xE2, CHR 0x80, char_of (k :: nat)])
         [0x80, 0x81, 0x82, 0x83, 0x84, 0x85, 0x86, 0x87, 0x88, 0x89, 0x8A, 0xA8, 0xA9, 0xAF]
     @ [[CHR 0xE2, CHR 0x81, CHR 0x9F], [CHR 0xE3, CHR 0x80, CHR 0x80]]"

definition leading :: "string list \<Rightarrow> string \<Rightarrow> string option" where
  "leading seqs s = find (\<lambda>q. take (length q) s = q) seqs"

lemma leading_shorter:
  "leading seqs s = Some q \<Longrightarrow> q \<noteq> [] \<Longrightarrow> length (drop (length q) s) < length s"
  by (cases s) (auto simp: leading_def find_Some_iff)

function lstrip_seqs :: "string list \<Rightarrow> string \<Rightarrow> string" where
  "lstrip_seqs seqs s =
     (case leading seqs s of
        None \<Rightarrow> s
      | Some q \<Rightarrow> if q = [] then s else lstrip_seqs seqs (drop (length q) s))"
  by pat_completeness auto
termination
  by (relation "measure (\<lambda>(seqs, s). length s)") (auto dest: leading_shorter)

declare lstrip_seqs.simps [simp del]

definition str_strip :: "string \<Rightarrow> string" where
  "str_strip s =
     rev (lstrip_seqs (map rev unicode_spaces) (rev (lstrip_seqs unicode_spaces s)))"

text \<open>\<^verbatim>\<open>os.path.join(a, b)\<close> and \<^verbatim>\<open>os.path.dirname(p)\<close> of \<^verbatim>\<open>posixpath\<close>.\<close>

definition os_path_join :: "string \<Rightarrow> string \<Rightarrow> string" where
  "os_path_join a b =
     (if b \<noteq> [] \<and> hd b = CHR ''/'' then b
      else if a = [] \<or> last a = CHR ''/'' then a @ b
      else a @ ''/'' @ b)"

definition os_path_dirname :: "string \<Rightarrow> string" where
  "os_path_dirname p =
     (let head = rev (dropWhile (\<lambda>ch. ch \<noteq> CHR ''/'') (rev p))
      in if head \<noteq> [] \<and> \<not> list_all (\<lambda>ch. ch = CHR ''/'') head
         then rev (dropWhile (\<lambda>ch. ch = CHR ''/'') (rev head))
         else head)"

text \<open>
  The file system is a map from path strings to nodes: two strings are two paths, and
  permissions, links and the working directory are not modelled (a relative path with no
  directory part lies in the working directory, which exists).
\<close>

definition os_path_isfile :: "world \<Rightarrow> string \<Rightarrow> bool" where
  "os_path_isfile w p = (case fs w p of Some (File b) \<Rightarrow> True | _ \<Rightarrow> False)"

definition os_path_isdir :: "world \<Rightarrow> string \<Rightarrow> bool" where
  "os_path_isdir w p = (case fs w p of Some Dir \<Rightarrow> True | _ \<Rightarrow> False)"

text \<open>Whether a new entry can be made at \<open>p\<close>: the directory part of \<open>p\<close> is a directory.\<close>

definition parent_error :: "world \<Rightarrow> string \<Rightarrow> exn option" where
  "parent_error w p =
     (let d = os_path_dirname p in
      if d = [] then None
      else (case fs w d of
              Some Dir \<Rightarrow> None
            | Some (File b) \<Rightarrow> Some NotADirectoryError
            | None \<Rightarrow> Some FileNotFoundError))"

text \<open>
  \<^verbatim>\<open>with open(p, "wb") as f: f.write(content)\<close>, lines 101 and 102. \<open>open_wb_error\<close> is
  the error of \<^verbatim>\<open>open\<close>, if it raises one; otherwise the file is created or truncated and
  holds the content.
\<close>

definition open_wb_error :: "world \<Rightarrow> string \<Rightarrow> exn option" where
  "open_wb_error w p =
     (case parent_error w p of
        Some x \<Rightarrow> Some x
      | None \<Rightarrow> if os_path_isdir w p then Some IsADirectoryError else None)"

definition open_wb_write :: "string \<Rightarrow> bytes \<Rightarrow> world \<Rightarrow> (error + unit) \<times> world" where
  "open_wb_write p content w =
     (case open_wb_error w p of
        Some x \<Rightarrow> (Inl (Raised x), w)
      | None \<Rightarrow> (Inr (), emit (Write p content) (w\<lparr>fs := (fs w)(p \<mapsto> File content)\<rparr>)))"

text \<open>\<^verbatim>\<open>open(p, "rb")\<close> followed by reading the file.\<close>

definition open_rb :: "string \<Rightarrow> world \<Rightarrow> exn + bytes" where
  "open_rb p w =
     (case fs w p of
        Some (File b) \<Rightarrow> Inr b
      | Some Dir \<Rightarrow> Inl IsADirectoryError
      | None \<Rightarrow> Inl FileNotFoundError)"

text \<open>\<^verbatim>\<open>os.mkdir(p)\<close>; the empty path names no file.\<close>

definition os_mkdir :: "string \<Rightarrow> world \<Rightarrow> (error + unit) \<times> world" where
  "os_mkdir p w =
     (let w1 = emit (Mkdir p) w in
      if p = [] then (Inl (Raised FileNotFoundError), w1)
      else if fs w p \<noteq> None then (Inl (Raised FileExistsError), w1)
      else (case parent_error w p of
              Some x \<Rightarrow> (Inl (Raised x), w1)
            | None \<Rightarrow> (Inr (), w1\<lparr>fs := (fs w)(p \<mapsto> Dir)\<rparr>)))"

section \<open>The URL builder\<close>

text \<open>
  \<^verbatim>\<open>urllib.parse\<close> is not part of the repository; \<open>urlsplit\<close>, \<open>urlparse\<close>, \<open>urlunsplit\<close>,
  \<open>urlunparse\<close>, \<open>quote_plus\<close> and \<open>urlencode\<close> follow the module as CPython 3.11 has it, for
  \<^verbatim>\<open>str\<close> arguments and the default keyword arguments.
\<close>

definition ascii_alpha :: "char \<Rightarrow> bool" where
  "ascii_alpha ch =
     (let k = (of_char ch :: nat) in (0x41 \<le> k \<and> k \<le> 0x5A) \<or> (0x61 \<le> k \<and> k \<le> 0x7A))"

definition ascii_digit :: "char \<Rightarrow> bool" where
  "ascii_digit ch = (let k = (of_char ch :: nat) in 0x30 \<le> k \<and> k \<le> 0x39)"

definition scheme_char :: "char \<Rightarrow> bool" where
  "scheme_char ch = (ascii_alpha ch \<or> ascii_digit ch \<or> ch \<in> set ''+-.'')"

definition ascii_lower :: "char \<Rightarrow> char" where
  "ascii_lower ch =
     (let k = (of_char ch :: nat) in if 0x41 \<le> k \<and> k \<le> 0x5A then char_of (k + 32) else ch)"

definition c0_control_or_space :: "char \<Rightarrow> bool" where
  "c0_control_or_space ch = ((of_char ch :: nat) \<le> 0x20)"

definition unsafe_url_byte :: "char \<Rightarrow> bool" where
  "unsafe_url_byte ch = ((of_char ch :: nat) \<in> {9, 13, 10})"

definition uses_netloc :: "string list" where
  "uses_netloc = [[], ''ftp'', ''http'', ''gopher'', ''nntp'', ''telnet'',
     ''imap'', ''wais'', ''file'', ''mms'', ''https'', ''shttp'',
     ''snews'', ''prospero'', ''rtsp'', ''rtsps'', ''rtspu'', ''rsync'',
     ''svn'', ''svn+ssh'', ''sftp'', ''nfs'', ''git'', ''git+ssh'',
     ''ws'', ''wss'']"

definition uses_params :: "string list" where
  "uses_params = [[], ''ftp'', ''hdl'', ''prospero'', ''http'', ''imap'',
     ''https'', ''shttp'', ''rtsp'', ''rtsps'', ''rtspu'', ''sip'',
     ''sips'', ''mms'', ''sftp'', ''tel'']"

text \<open>\<^verbatim>\<open>s.split(ch, 1)\<close> for a string that holds \<open>ch\<close>: the text before its first occurrence
  and the text after it.\<close>

definition before :: "char \<Rightarrow> string \<Rightarrow> string" where
  "before ch s = takeWhile (\<lambda>x. x \<noteq> ch) s"

definition after :: "char \<Rightarrow> string \<Rightarrow> string" where
  "after ch s = drop 1 (dropWhile (\<lambda>x. x \<noteq> ch) s)"

text \<open>The scheme of \<^verbatim>\<open>urlsplit\<close>: the text before the first colon, when it is not empty,
  starts with a letter and holds scheme characters only.\<close>

definition split_scheme :: "string \<Rightarrow> string \<times> string" where
  "split_scheme url =
     (if CHR '':'' \<in> set url \<and> before CHR '':'' url \<noteq> [] \<and> ascii_alpha (hd url)
         \<and> list_all scheme_char (before CHR '':'' url)
      then (map ascii_lower (before CHR '':'' url), after CHR '':'' url)
      else ([], url))"

text \<open>\<^verbatim>\<open>_splitnetloc(url, 2)\<close> for a text that starts with two slashes.\<close>

definition netloc_delim :: "char \<Rightarrow> bool" where
  "netloc_delim ch = (ch \<in> set ''/?#'')"

definition splitnetloc :: "string \<Rightarrow> string \<times> string" where
  "splitnetloc url =
     (takeWhile (\<lambda>ch. \<not> netloc_delim ch) (drop 2 url),
      dropWhile (\<lambda>ch. \<not> netloc_delim ch) (drop 2 url))"

text \<open>
  The checks of \<^verbatim>\<open>urlsplit\<close> on the host: brackets come in pairs, a bracketed host is an
  IPv6 or IPvFuture address, and a host outside ASCII holds no delimiter after NFKC
  normalisation. The last two are the environment's.
\<close>

definition netloc_error :: "environment \<Rightarrow> string \<Rightarrow> bool" where
  "netloc_error e netloc =
     (let l = CHR ''['' \<in> set netloc; r = CHR '']'' \<in> set netloc in
      (l \<and> \<not> r) \<or> (r \<and> \<not> l)
      \<or> (l \<and> r \<and> \<not> bracketed_host_ok e (before CHR '']'' (after CHR ''['' netloc)))
      \<or> (netloc \<noteq> [] \<and> \<not> list_all (\<lambda>ch. (of_char ch :: nat) < 0x80) netloc
           \<and> \<not> nfkc_ok e netloc))"

definition urlsplit ::
  "environment \<Rightarrow> string \<Rightarrow> exn + (string \<times> string \<times> string \<times> string \<times> string)" where
  "urlsplit e url0 =
     (let url1 = filter (\<lambda>ch. \<not> unsafe_url_byte ch) (dropWhile c0_control_or_space url0);
          (scheme, url2) = split_scheme url1;
          (netloc, url3) = (if take 2 url2 = ''//'' then splitnetloc url2 else ([], url2));
          (url4, fragment) = (if CHR ''#'' \<in> set url3
                              then (before CHR ''#'' url3, after CHR ''#'' url3) else (url3, []));
          (url5, query) = (if CHR ''?'' \<in> set url4
                           then (before CHR ''?'' url4, after CHR ''?'' url4) else (url4, []))
      in if netloc_error e netloc then Inl ValueError
         else Inr (scheme, netloc, url5, query, fragment))"

text \<open>\<^verbatim>\<open>_splitparams\<close>: the parameters follow the first semicolon of the last path segment.\<close>

definition splitparams :: "string \<Rightarrow> string \<times> string" where
  "splitparams url =
     (if CHR ''/'' \<in> set url then
        (let seg = rev (takeWhile (\<lambda>ch. ch \<noteq> CHR ''/'') (rev url));
             head = take (length url - length seg) url
         in if CHR '';'' \<in> set seg then (head @ before CHR '';'' seg, after CHR '';'' seg)
            else (url, []))
      else (before CHR '';'' url, after CHR '';'' url))"

definition urlparse ::
  "environment \<Rightarrow> string
     \<Rightarrow> exn + (string \<times> string \<times> string \<times> string \<times> string \<times> string)" where
  "urlparse e url =
     (case urlsplit e url of
        Inl x \<Rightarrow> Inl x
      | Inr (scheme, netloc, url1, query, fragment) \<Rightarrow>
          (let (url2, params) = (if scheme \<in> set uses_params \<and> CHR '';'' \<in> set url1
                                 then splitparams url1 else (url1, []))
           in Inr (scheme, netloc, url2, params, query, fragment)))"

definition urlunsplit :: "string \<times> string \<times> string \<times> string \<times> string \<Rightarrow> string" where
  "urlunsplit t =
     (case t of (scheme, netloc, url, query, fragment) \<Rightarrow>
       (let url1 = (if netloc \<noteq> [] \<or> (scheme \<noteq> [] \<and> scheme \<in> set uses_netloc)
                       \<or> take 2 url = ''//''
                    then ''//'' @ netloc @ (if url \<noteq> [] \<and> take 1 url \<noteq> ''/'' then ''/'' @ url else url)
                    else url);
            url2 = (if scheme \<noteq> [] then scheme @ '':'' @ url1 else url1);
            url3 = (if query \<noteq> [] then url2 @ ''?'' @ query else url2)
        in if fragment \<noteq> [] then url3 @ ''#'' @ fragment else url3))"

definition urlunparse ::
  "string \<times> string \<times> string \<times> string \<times> string \<times> string \<Rightarrow> string" where
  "urlunparse t =
     (case t of (scheme, netloc, url, params, query, fragment) \<Rightarrow>
        urlunsplit (scheme, netloc, (if params \<noteq> [] then url @ '';'' @ params else url),
                    query, fragment))"

text \<open>
  \<^verbatim>\<open>quote_plus\<close> with no safe character: a space becomes a plus sign, a letter, a digit and
  each of \<^verbatim>\<open>_.-~\<close> stays, and every other byte becomes a percent sign and two upper-case
  hexadecimal digits.
\<close>

definition always_safe :: "char \<Rightarrow> bool" where
  "always_safe ch = (ascii_alpha ch \<or> ascii_digit ch \<or> ch \<in> set ''_.-~'')"

definition hexdigit :: "nat \<Rightarrow> char" where
  "hexdigit n = ''0123456789ABCDEF'' ! (n mod 16)"

definition quote_byte :: "char \<Rightarrow> string" where
  "quote_byte ch =
     (if ch = CHR '' '' then ''+''
      else if always_safe ch then [ch]
      else [CHR ''%'', hexdigit ((of_char ch :: nat) div 16), hexdigit ((of_char ch :: nat) mod 16)])"

definition quote_plus :: "string \<Rightarrow> string" where
  "quote_plus s = concat (map quote_byte s)"

fun join_with :: "string \<Rightarrow> string list \<Rightarrow> string" where
  "join_with sep [] = []"
| "join_with sep [x] = x"
| "join_with sep (x # y # ys) = x @ sep @ join_with sep (y # ys)"

text \<open>\<^verbatim>\<open>urlencode\<close> of a dictionary from \<^verbatim>\<open>str\<close> keys to \<^verbatim>\<open>bytes\<close> values, in the
  dictionary's order.\<close>

definition encode_pair :: "string \<times> bytes \<Rightarrow> string" where
  "encode_pair kv = quote_plus (fst kv) @ ''='' @ quote_plus (snd kv)"

definition urlencode :: "(string \<times> bytes) list \<Rightarrow> string" where
  "urlencode d = join_with ''&'' (map encode_pair d)"

text \<open>
  A dictionary is the list of its items in insertion order. \<^verbatim>\<open>dict(items)\<close> keeps the place
  of a key's first item and the value of its last.
\<close>

definition dict_set :: "('k \<times> 'v) list \<Rightarrow> 'k \<Rightarrow> 'v \<Rightarrow> ('k \<times> 'v) list" where
  "dict_set d k v =
     (if k \<in> fst ` set d then map (\<lambda>(k', v'). if k' = k then (k', v) else (k', v')) d
      else d @ [(k, v)])"

definition dict_of :: "('k \<times> 'v) list \<Rightarrow> ('k \<times> 'v) list" where
  "dict_of items = foldl (\<lambda>d (k, v). dict_set d k v) [] items"

text \<open>
  \<^verbatim>\<open>_encode\<close> (line 176). A parameter value is a \<^verbatim>\<open>str\<close> or \<^verbatim>\<open>None\<close>. With an input
  encoding set, \<^verbatim>\<open>str(value, encoding)\<close> is given a \<^verbatim>\<open>str\<close> and raises \<^verbatim>\<open>TypeError\<close>.
\<close>

definition encode_value :: "config \<Rightarrow> string \<Rightarrow> exn + bytes" where
  "encode_value c v =
     (case input_encoding c of
        None \<Rightarrow> Inr v
      | Some enc \<Rightarrow> if enc = [] then Inr v else Inl TypeError)"

text \<open>The list comprehension of line 173: the first value that fails ends it.\<close>

fun encode_items :: "config \<Rightarrow> (string \<times> string option) list \<Rightarrow> exn + (string \<times> bytes) list" where
  "encode_items c [] = Inr []"
| "encode_items c ((k, None) # ps) = encode_items c ps"
| "encode_items c ((k, Some v) # ps) =
     (case encode_value c v of
        Inl x \<Rightarrow> Inl x
      | Inr b \<Rightarrow> (case encode_items c ps of Inl x \<Rightarrow> Inl x | Inr r \<Rightarrow> Inr ((k, b) # r)))"

text \<open>\<^verbatim>\<open>_encode_params\<close> (line 168), called with a dictionary.\<close>

definition encode_params :: "config \<Rightarrow> (string \<times> string option) list \<Rightarrow> exn + string" where
  "encode_params c ps =
     (case encode_items c ps of Inl x \<Rightarrow> Inl x | Inr items \<Rightarrow> Inr (urlencode (dict_of items)))"

text \<open>
  \<^verbatim>\<open>build_url\<close> (line 150). A component is a \<^verbatim>\<open>str\<close> or \<^verbatim>\<open>None\<close>; the falsy ones (\<^verbatim>\<open>None\<close>
  and the empty string) are filtered out.
\<close>

definition truthy_components :: "string option list \<Rightarrow> string list" where
  "truthy_components cs =
     concat (map (\<lambda>x. case x of None \<Rightarrow> [] | Some s \<Rightarrow> if s = [] then [] else [s]) cs)"

definition build_url ::
  "environment \<Rightarrow> config \<Rightarrow> string \<Rightarrow> string option list option
     \<Rightarrow> (string \<times> string option) list option \<Rightarrow> error + string" where
  "build_url e c url components params_extra =
     (case urlparse e url of
        Inl x \<Rightarrow> Inl (Raised x)
      | Inr (scheme, netloc, path0, params, query0, fragment) \<Rightarrow>
          (let path1 =
                 (case components of
                    None \<Rightarrow> path0
                  | Some cs \<Rightarrow>
                      if cs = [] then path0
                      else (if path0 \<noteq> [] \<and> last path0 = CHR ''/'' then path0 else path0 @ ''/'')
                           @ join_with ''/'' (truthy_components cs))
           in case (case params_extra of
                      None \<Rightarrow> Inr query0
                    | Some ps \<Rightarrow>
                        if ps = [] then Inr query0
                        else (case encode_params c ps of
                                Inl x \<Rightarrow> Inl x
                              | Inr query_extra \<Rightarrow>
                                  if query0 \<noteq> [] then Inr (query0 @ query_extra)
                                  else Inr query_extra)) of
                Inl x \<Rightarrow> Inl (Raised x)
              | Inr query1 \<Rightarrow> Inr (urlunparse (scheme, netloc, path1, params, query1, fragment))))"

section \<open>The batch orchestrator\<close>

text \<open>The dictionary of lines 87 to 93 and the file name of line 94.\<close>

definition request_params ::
  "environment \<Rightarrow> string \<Rightarrow> string \<Rightarrow> string \<Rightarrow> (string \<times> string option) list" where
  "request_params e wnid release src =
     [(''wnid'', Some wnid), (''username'', imagenet_username e),
      (''accesskey'', imagenet_accesskey e), (''release'', Some release), (''src'', Some src)]"

definition output_file :: "config \<Rightarrow> string \<Rightarrow> string" where
  "output_file c wnid = os_path_join (path c) (wnid @ ''.tar'')"

text \<open>\<^verbatim>\<open>get_wnid\<close> (line 85). Logging is not modelled.\<close>

definition get_wnid ::
  "environment \<Rightarrow> config \<Rightarrow> string \<Rightarrow> string \<Rightarrow> string \<Rightarrow> world
     \<Rightarrow> (error + string) \<times> world" where
  "get_wnid e c wnid release src w =
     (let params = request_params e wnid release src;
          filename = output_file c wnid
      in if \<not> os_path_isfile w filename then
           (case build_url e c (synset_original_url c @ ''?'') None (Some params) of
              Inl err \<Rightarrow> (Inl err, w)
            | Inr url \<Rightarrow>
                (case download_wnid e c url w of
                   (Inl err, w1) \<Rightarrow> (Inl err, w1)
                 | (Inr content, w1) \<Rightarrow>
                     (case open_wb_write filename content w1 of
                        (Inl err, w2) \<Rightarrow> (Inl err, w2)
                      | (Inr u, w2) \<Rightarrow> (Inr filename, w2))))
         else (Inr filename, w))"

lemma readline_shorter:
  "fst (readline b) \<noteq> [] \<Longrightarrow> length (snd (readline b)) < length b"
proof -
  assume a: "fst (readline b) \<noteq> []"
  define body where "body = takeWhile (\<lambda>ch. ch \<noteq> CHR 0x0A) b"
  define rest where "rest = dropWhile (\<lambda>ch. ch \<noteq> CHR 0x0A) b"
  have "b = body @ rest" by (simp add: body_def rest_def)
  then have l: "length b = length body + length rest" by simp
  have rl: "readline b = (body @ take 1 rest, drop 1 rest)"
    by (simp add: readline_def Let_def body_def rest_def)
  from a have "body \<noteq> [] \<or> rest \<noteq> []" unfolding rl by auto
  then show ?thesis unfolding rl using l by (cases rest; cases body) auto
qed

text \<open>
  The loop of \<^verbatim>\<open>get_wnids\<close> (lines 76 to 83) on the bytes of the manifest not yet read. The
  counter \<^verbatim>\<open>cnt\<close> is never read and is left out.
\<close>

function read_loop ::
  "environment \<Rightarrow> config \<Rightarrow> string \<Rightarrow> string \<Rightarrow> bytes \<Rightarrow> world \<Rightarrow> (error + unit) \<times> world" where
  "read_loop e c release src unread w =
     (case (if bytes_strip (fst (readline unread)) \<noteq> [] then
              (case decode (fst (readline unread)) of
                 Inl x \<Rightarrow> (Inl (Raised x), w)
               | Inr s \<Rightarrow>
                   (case get_wnid e c (str_strip s) release src w of
                      (Inl err, w1) \<Rightarrow> (Inl err, w1)
                    | (Inr f, w1) \<Rightarrow> (Inr (), w1)))
            else (Inr (), w)) of
        (Inl err, w1) \<Rightarrow> (Inl err, w1)
      | (Inr u, w1) \<Rightarrow>
          if fst (readline unread) = [] then (Inr (), w1)
          else read_loop e c release src (snd (readline unread)) w1)"
  by pat_completeness auto
termination
  by (relation "measure (\<lambda>(e, c, release, src, unread, w). length unread)")
     (auto dest: readline_shorter)

declare read_loop.simps [simp del]

text \<open>\<^verbatim>\<open>get_wnids\<close> (line 65); \<^verbatim>\<open>os.path.join\<close> of one path is that path.\<close>

definition get_wnids ::
  "environment \<Rightarrow> config \<Rightarrow> string option \<Rightarrow> string \<Rightarrow> string \<Rightarrow> world
     \<Rightarrow> (error + unit) \<times> world" where
  "get_wnids e c filename release src w =
     (case (if path c = [] then os_mkdir (path c) w else (Inr (), w)) of
        (Inl err, w1) \<Rightarrow> (Inl err, w1)
      | (Inr u, w1) \<Rightarrow>
          (let manifest =
                 (case filename of
                    None \<Rightarrow> os_path_join (os_path_join (os_path_join (curr_dir e) ''data'') ''int'')
                              ''synset_list.txt''
                  | Some f \<Rightarrow> f)
           in case open_rb manifest w1 of
                Inl x \<Rightarrow> (Inl (Raised x), w1)
              | Inr content \<Rightarrow> read_loop e c release src content w1))"

text \<open>
  The identifiers of a manifest, as the loop meets them: for each line that is not blank,
  the stripped text of the line, or the error of decoding it.
\<close>

function manifest_lines :: "bytes \<Rightarrow> bytes list" where
  "manifest_lines unread =
     (if fst (readline unread) = [] then []
      else fst (readline unread) # manifest_lines (snd (readline unread)))"
  by pat_completeness auto
termination
  by (relation "measure length") (auto dest: readline_shorter)

declare manifest_lines.simps [simp del]

definition manifest_wnids :: "bytes \<Rightarrow> (exn + string) list" where
  "manifest_wnids content =
     map (\<lambda>line. case decode line of Inl x \<Rightarrow> Inl x | Inr s \<Rightarrow> Inr (str_strip s))
       (filter (\<lambda>line. bytes_strip line \<noteq> []) (manifest_lines content))"

text \<open>The loop as a run over these identifiers (shown equal to \<open>read_loop\<close> below).\<close>

fun get_each ::
  "environment \<Rightarrow> config \<Rightarrow> string \<Rightarrow> string \<Rightarrow> (exn + string) list \<Rightarrow> world
     \<Rightarrow> (error + unit) \<times> world" where
  "get_each e c release src [] w = (Inr (), w)"
| "get_each e c release src (Inl x # rest) w = (Inl (Raised x), w)"
| "get_each e c release src (Inr wnid # rest) w =
     (case get_wnid e c wnid release src w of
        (Inl err, w1) \<Rightarrow> (Inl err, w1)
      | (Inr f, w1) \<Rightarrow> get_each e c release src rest w1)"

section \<open>Notions for the properties of the URL builder\<close>

text \<open>The test of \<open>split_scheme\<close>: the text starts with a scheme and a colon.\<close>

definition has_scheme :: "string \<Rightarrow> bool" where
  "has_scheme url = (CHR '':'' \<in> set url \<and> before CHR '':'' url \<noteq> [] \<and> ascii_alpha (hd url)
         \<and> list_all scheme_char (before CHR '':'' url))"

text \<open>A text without the bytes \<open>urlsplit\<close> removes (tab, carriage return, line feed).\<close>

definition url_safe :: "string \<Rightarrow> bool" where
  "url_safe s = list_all (\<lambda>ch. \<not> unsafe_url_byte ch) s"

text \<open>A scheme as \<open>urlsplit\<close> returns it: empty, or lower-case scheme characters after a
  letter.\<close>

definition scheme_ok :: "string \<Rightarrow> bool" where
  "scheme_ok s = (s = [] \<or> (ascii_alpha (hd s) \<and> list_all scheme_char s \<and> map ascii_lower s = s))"

text \<open>What \<open>urlsplit\<close> guarantees of its result, and what \<open>urlunsplit\<close> needs to give it back.\<close>

definition split_ok :: "environment \<Rightarrow> string \<times> string \<times> string \<times> string \<times> string \<Rightarrow> bool" where
  "split_ok e t =
     (case t of (s, n, u, q, f) \<Rightarrow>
        scheme_ok s
        \<and> list_all (\<lambda>ch. \<not> netloc_delim ch) n \<and> \<not> netloc_error e n
        \<and> url_safe n \<and> url_safe u \<and> url_safe q \<and> url_safe f
        \<and> CHR ''?'' \<notin> set u \<and> CHR ''#'' \<notin> set u \<and> CHR ''#'' \<notin> set q
        \<and> (s = [] \<longrightarrow> \<not> has_scheme u \<and> (u = [] \<or> \<not> c0_control_or_space (hd u))))"

text \<open>The items of a parameter dictionary whose value is not \<^verbatim>\<open>None\<close>, in order.\<close>

definition present :: "(string \<times> string option) list \<Rightarrow> (string \<times> string) list" where
  "present ps = concat (map (\<lambda>kv. case snd kv of None \<Rightarrow> [] | Some v \<Rightarrow> [(fst kv, v)]) ps)"

text \<open>\<^verbatim>\<open>s.split(ch)\<close>, and the key=value pairs of a query string: its parts between
  ampersands, none for the empty query.\<close>

fun split_on :: "char \<Rightarrow> string \<Rightarrow> string list" where
  "split_on ch [] = [[]]"
| "split_on ch (x # xs) =
     (if x = ch then [] # split_on ch xs
      else (case split_on ch xs of [] \<Rightarrow> [[x]] | y # ys \<Rightarrow> (x # y) # ys))"

definition query_pairs :: "string \<Rightarrow> string list" where
  "query_pairs q = (if q = [] then [] else split_on CHR ''&'' q)"

text \<open>The characters \<open>quote_plus\<close> produces.\<close>

definition quoted_char :: "char \<Rightarrow> bool" where
  "quoted_char ch = (always_safe ch \<or> ch = CHR ''+'' \<or> ch = CHR ''%'')"

text \<open>
  A path segment that holds no question mark, no hash sign and none of the bytes
  \<open>urlsplit\<close> removes; \<open>build_url\<close> copies segments into the path as they are.
\<close>

definition clean_segment :: "string \<Rightarrow> bool" where
  "clean_segment x = (CHR ''?'' \<notin> set x \<and> CHR ''#'' \<notin> set x \<and> url_safe x)"

definition clean_components :: "string option list option \<Rightarrow> bool" where
  "clean_components components =
     (case components of None \<Rightarrow> True | Some cs \<Rightarrow> list_all clean_segment (truthy_components cs))"

text \<open>The path and the query \<open>build_url\<close> hands to \<open>urlunparse\<close> (shown below), the query
  when every value is encoded without error.\<close>

definition built_path :: "string \<Rightarrow> string option list option \<Rightarrow> string" where
  "built_path path0 components =
     (case components of
        None \<Rightarrow> path0
      | Some cs \<Rightarrow>
          if cs = [] then path0
          else (if path0 \<noteq> [] \<and> last path0 = CHR ''/'' then path0 else path0 @ ''/'')
               @ join_with ''/'' (truthy_components cs))"

definition built_query :: "string \<Rightarrow> (string \<times> string option) list option \<Rightarrow> string" where
  "built_query query0 params_extra =
     (case params_extra of
        None \<Rightarrow> query0
      | Some ps \<Rightarrow> if ps = [] then query0 else query0 @ urlencode (dict_of (present ps)))"


section \<open>Concrete configurations and environments\<close>

text \<open>
  A configuration with the constructor's defaults (ten seconds, two retries, 0.8 seconds), an
  environment whose network gives the \<open>k\<close>-th call the answer \<open>answers k\<close>, and a world with
  no file and no event.
\<close>

definition example_config :: config where
  "example_config = \<lparr>path = ''out'', timeout = 10, retry = 2, sleep = 4 / 5,
     input_encoding = None,
     synset_original_url = ''http://www.image-net.org/download/synset''\<rparr>"

definition network_of :: "(nat \<Rightarrow> response) \<Rightarrow> environment" where
  "network_of answers = \<lparr>imagenet_username = Some ''user'', imagenet_accesskey = Some ''key'',
     curr_dir = ''/repo/imagenet'', urlopen = (\<lambda>k url t. answers k),
     bracketed_host_ok = (\<lambda>h. False), nfkc_ok = (\<lambda>n. True)\<rparr>"

definition empty_world :: world where
  "empty_world = \<lparr>fs = (\<lambda>p. None), trace = []\<rparr>"

definition example_manifest :: bytes where
  "example_manifest =
     ''n01440764'' @ [CHR 0x0A] @ ''n01443537'' @ [CHR 0x0A] @ ''n01484850'' @ [CHR 0x0A]"

text \<open>
  Three worlds: one with the output directory and the manifest, one where the first
  identifier has its output file already, and one without the output directory.
\<close>

definition example_world :: world where
  "example_world =
     \<lparr>fs = (\<lambda>p. None)(''out'' \<mapsto> Dir, ''list.txt'' \<mapsto> File example_manifest), trace = []\<rparr>"

definition downloaded_world :: world where
  "downloaded_world =
     \<lparr>fs = (\<lambda>p. None)(''out'' \<mapsto> Dir, ''list.txt'' \<mapsto> File example_manifest,
                          ''out/n01440764.tar'' \<mapsto> File ''old''),
      trace = []\<rparr>"

definition bare_world :: world where
  "bare_world = \<lparr>fs = (\<lambda>p. None)(''list.txt'' \<mapsto> File example_manifest), trace = []\<rparr>"


section \<open>Properties of the fetcher\<close>

lemma sleeps_emit [simp]:
  "sleeps (emit ev w) = (if is_sleep ev then Suc (sleeps w) else sleeps w)"
  by (simp add: sleeps_def emit_def)

lemma gets_emit [simp]:
  "gets (emit ev w) = (if is_urlopen ev then Suc (gets w) else gets w)"
  by (simp add: gets_def emit_def)

lemma trace_emit [simp]: "trace (emit ev w) = trace w @ [ev]"
  by (simp add: emit_def)

lemma fs_emit [simp]: "fs (emit ev w) = fs w"
  by (simp add: emit_def)

lemma loop_transport:
  assumes sl: "0 \<le> sleep c"
  shows "n = nat (retry c - count) \<Longrightarrow> count \<le> retry c \<Longrightarrow>
    (\<forall>k\<le>n. \<exists>x. urlopen e (gets w + k) url (timeout c) = Raises x \<and> transport_failure x) \<Longrightarrow>
    \<exists>x. transport_failure x \<and> urlopen e (gets w + n) url (timeout c) = Raises x \<and>
      download_loop e c url count w =
       (Inl (DownloadError [] (Some x)),
        w\<lparr>trace := trace w @ concat (replicate n [Urlopen url (timeout c), Sleep (sleep c)])
                @ [Urlopen url (timeout c)]\<rparr>)"
proof (induction n arbitrary: count w)
  case 0
  then obtain x where x: "urlopen e (gets w) url (timeout c) = Raises x" "transport_failure x"
    by fastforce
  from 0 have "count = retry c" by simp
  with x show ?case
    by (subst download_loop.simps) (auto simp: transport_failure_def emit_def)
next
  case (Suc n)
  from Suc.prems(3) obtain x where x: "urlopen e (gets w) url (timeout c) = Raises x" "transport_failure x"
    by fastforce
  let ?w2 = "emit (Sleep (sleep c)) (emit (Urlopen url (timeout c)) w)"
  have lt: "count + 1 \<le> retry c" "n = nat (retry c - (count + 1))" using Suc.prems by auto
  have "\<forall>k\<le>n. \<exists>x. urlopen e (gets ?w2 + k) url (timeout c) = Raises x \<and> transport_failure x"
  proof (intro allI impI)
    fix k assume "k \<le> n"
    then have "Suc k \<le> Suc n" by simp
    with Suc.prems(3) show "\<exists>x. urlopen e (gets ?w2 + k) url (timeout c) = Raises x \<and> transport_failure x"
      by (metis add_Suc_right add_Suc gets_emit is_urlopen.simps(1) is_urlopen.simps(2))
  qed
  from Suc.IH[OF lt(2) lt(1) this] obtain y where y: "transport_failure y"
     "urlopen e (gets ?w2 + n) url (timeout c) = Raises y"
     "download_loop e c url (count + 1) ?w2 =
       (Inl (DownloadError [] (Some y)),
        ?w2\<lparr>trace := trace ?w2 @ concat (replicate n [Urlopen url (timeout c), Sleep (sleep c)])
                @ [Urlopen url (timeout c)]\<rparr>)" by blast
  have "download_loop e c url count w = download_loop e c url (count + 1) ?w2"
    using x lt sl by (subst download_loop.simps) (auto simp: transport_failure_def time_sleep_def)
  moreover have "gets ?w2 + n = gets w + Suc n" by simp
  moreover have "?w2\<lparr>trace := trace ?w2 @ concat (replicate n [Urlopen url (timeout c), Sleep (sleep c)])
                @ [Urlopen url (timeout c)]\<rparr> = w\<lparr>trace := trace w @ concat (replicate (Suc n) [Urlopen url (timeout c), Sleep (sleep c)])
                @ [Urlopen url (timeout c)]\<rparr>" by (simp add: emit_def)
  ultimately show ?case using y by (intro exI[of _ y]) simp
qed

lemma loop_protocol:
  "n = nat (retry c - count) \<Longrightarrow> count \<le> retry c \<Longrightarrow>
    (\<forall>k\<le>n. \<exists>x. urlopen e (gets w + k) url (timeout c) = Raises x \<and> protocol_failure x) \<Longrightarrow>
    \<exists>x. protocol_failure x \<and> urlopen e (gets w + n) url (timeout c) = Raises x \<and>
      download_loop e c url count w =
       (Inl (DownloadError [] (Some x)),
        w\<lparr>trace := trace w @ replicate (Suc n) (Urlopen url (timeout c))\<rparr>)"
proof (induction n arbitrary: count w)
  case 0
  then obtain x where x: "urlopen e (gets w) url (timeout c) = Raises x" "protocol_failure x"
    by fastforce
  from 0 have "count = retry c" by simp
  with x show ?case
    by (subst download_loop.simps) (auto simp: emit_def)
next
  case (Suc n)
  from Suc.prems(3) obtain x where x: "urlopen e (gets w) url (timeout c) = Raises x" "protocol_failure x"
    by fastforce
  let ?w2 = "emit (Urlopen url (timeout c)) w"
  have lt: "count + 1 \<le> retry c" "n = nat (retry c - (count + 1))" using Suc.prems by auto
  have "\<forall>k\<le>n. \<exists>x. urlopen e (gets ?w2 + k) url (timeout c) = Raises x \<and> protocol_failure x"
  proof (intro allI impI)
    fix k assume "k \<le> n"
    then have "Suc k \<le> Suc n" by simp
    with Suc.prems(3) have "\<exists>x. urlopen e (gets w + Suc k) url (timeout c) = Raises x \<and> protocol_failure x"
      by blast
    then show "\<exists>x. urlopen e (gets ?w2 + k) url (timeout c) = Raises x \<and> protocol_failure x"
      by simp
  qed
  from Suc.IH[OF lt(2) lt(1) this] obtain y where y: "protocol_failure y"
     "urlopen e (gets ?w2 + n) url (timeout c) = Raises y"
     "download_loop e c url (count + 1) ?w2 =
       (Inl (DownloadError [] (Some y)),
        ?w2\<lparr>trace := trace ?w2 @ replicate (Suc n) (Urlopen url (timeout c))\<rparr>)" by blast
  have "download_loop e c url count w = download_loop e c url (count + 1) ?w2"
    using x lt by (subst download_loop.simps) auto
  moreover have "gets ?w2 + n = gets w + Suc n" by simp
  moreover have "?w2\<lparr>trace := trace ?w2 @ replicate (Suc n) (Urlopen url (timeout c))\<rparr>
      = w\<lparr>trace := trace w @ replicate (Suc (Suc n)) (Urlopen url (timeout c))\<rparr>"
    by (simp add: emit_def)
  ultimately show ?case using y by (intro exI[of _ y]) simp
qed

text \<open>What the loop leaves behind, whatever the network does.\<close>

lemma download_loop_outcome:
  "download_loop e c url count w = (r, w') \<Longrightarrow>
     fs w' = fs w \<and>
     (\<exists>evs. trace w' = trace w @ evs \<and> list_all (\<lambda>ev. is_urlopen ev \<or> is_sleep ev) evs) \<and>
     gets w < gets w' \<and>
     (case urlopen e (gets w' - 1) url (timeout c) of
        Body b \<Rightarrow> r = Inr b
      | NoHandle \<Rightarrow> r = Inl (DownloadError (''Cannot open URL'' @ url) None)
      | Raises x \<Rightarrow>
          if protocol_failure x \<or> is_oserror x
          then (r = Inl (DownloadError [] (Some x)) \<and> retry c < count + int (gets w' - gets w))
             \<or> (r = Inl (Raised ValueError) \<and> sleep c < 0 \<and> \<not> protocol_failure x)
          else r = Inl (Raised x))"
proof (induction e c url count w arbitrary: r w' rule: download_loop.induct)
  case (1 e c url count w)
  let ?w1 = "emit (Urlopen url (timeout c)) w"
  have g1: "gets ?w1 - 1 = gets w" "gets w < gets ?w1" "fs ?w1 = fs w"
     "trace ?w1 = trace w @ [Urlopen url (timeout c)]" by simp_all
  note unf = "1.prems"[unfolded download_loop.simps[of e c url count w] Let_def]
  show ?case
  proof (cases "urlopen e (gets w) url (timeout c)")
    case (Body b)
    with unf have "r = Inr b \<and> w' = ?w1" by auto
    with Body g1 show ?thesis by simp
  next
    case NoHandle
    with unf have "r = Inl (DownloadError (''Cannot open URL'' @ url) None) \<and> w' = ?w1"
      by auto
    with NoHandle g1 show ?thesis by simp
  next
    case (Raises x)
    show ?thesis
    proof (cases "retry c < count + 1")
      case True
      show ?thesis
      proof (cases "protocol_failure x \<or> is_oserror x")
        case True
        with Raises \<open>retry c < count + 1\<close> unf
        have "r = Inl (DownloadError [] (Some x)) \<and> w' = ?w1"
          by (auto split: if_splits)
        with Raises g1 True \<open>retry c < count + 1\<close> show ?thesis by simp
      next
        case False
        with Raises unf have "r = Inl (Raised x) \<and> w' = ?w1"
          by (auto split: if_splits)
        with Raises g1 False show ?thesis by simp
      qed
    next
      case budget: False
      show ?thesis
      proof (cases "protocol_failure x")
        case True
        with Raises budget unf have rec: "download_loop e c url (count + 1) ?w1 = (r, w')"
          by (auto split: if_splits)
        note ih = "1.IH"(1)[OF refl Raises True budget rec]
        from ih have "gets w' - 1 \<noteq> gets w \<or> True" by simp
        from ih g1 show ?thesis
          by (auto split: response.splits if_splits)
      next
        case np: False
        show ?thesis
        proof (cases "is_oserror x")
          case False
          with np Raises unf have "r = Inl (Raised x) \<and> w' = ?w1"
            by (auto split: if_splits)
          with Raises g1 False np show ?thesis by simp
        next
          case os: True
          show ?thesis
          proof (cases "sleep c < 0")
            case True
            with os np Raises budget unf have "r = Inl (Raised ValueError) \<and> w' = ?w1"
              by (auto simp: time_sleep_def split: if_splits)
            with Raises g1 os np True show ?thesis by simp
          next
            case False
            let ?w2 = "emit (Sleep (sleep c)) ?w1"
            have ts: "time_sleep (sleep c) ?w1 = (Inr (), ?w2)"
              using False by (simp add: time_sleep_def)
            with os np Raises budget unf
            have rec: "download_loop e c url (count + 1) ?w2 = (r, w')"
              by (auto split: if_splits)
            note ih = "1.IH"(2)[OF refl Raises np os budget ts[symmetric] refl rec]
            from ih g1 show ?thesis
              by (auto split: response.splits if_splits)
          qed
        qed
      qed
    qed
  qed
qed


lemma filter_urlopen_rounds:
  "filter is_urlopen (concat (replicate n [Urlopen u t, Sleep d])) = replicate n (Urlopen u t)"
  by (induction n) simp_all

lemma filter_sleep_rounds:
  "filter is_sleep (concat (replicate n [Urlopen u t, Sleep d])) = replicate n (Sleep d)"
  by (induction n) simp_all



text \<open>
  A negative sleep length is outside that domain: when a retry is left after the first
  transport failure, \<^verbatim>\<open>time.sleep\<close> raises \<^verbatim>\<open>ValueError\<close> and the call ends after one GET.
\<close>

lemma download_wnid_negative_sleep:
  assumes "1 \<le> retry c" and "sleep c < 0"
    and "urlopen e (gets w) url (timeout c) = Raises x" and "transport_failure x"
  shows "download_wnid e c url w = (Inl (Raised ValueError), emit (Urlopen url (timeout c)) w)"
  using assms
  by (simp add: download_wnid_def download_loop.simps[of e c url 0 w] transport_failure_def
      time_sleep_def)

text \<open>
  C3. Let the retry count \<open>N\<close> be non-negative and let each of the \<open>N + 1\<close> calls of
  \<^verbatim>\<open>urlopen\<close> raise a protocol or certificate failure (\<^verbatim>\<open>HTTPError\<close>, \<^verbatim>\<open>HTTPException\<close>,
  \<^verbatim>\<open>CertificateError\<close>). Then the events of the call are \<open>N + 1\<close> GETs and nothing else, so
  no sleep stands between them, and the call raises \<^verbatim>\<open>DownloadError\<close>.
\<close>

theorem download_wnid_protocol_retries:
  assumes "0 \<le> retry c"
    and "\<forall>k\<le>nat (retry c). \<exists>x. urlopen e (gets w + k) url (timeout c) = Raises x
           \<and> protocol_failure x"
  shows "\<exists>x w'. protocol_failure x
      \<and> urlopen e (gets w + nat (retry c)) url (timeout c) = Raises x
      \<and> download_wnid e c url w = (Inl (DownloadError [] (Some x)), w')
      \<and> trace w' = trace w @ replicate (nat (retry c) + 1) (Urlopen url (timeout c))
      \<and> gets w' = gets w + nat (retry c) + 1
      \<and> sleeps w' = sleeps w
      \<and> fs w' = fs w"
proof -
  from loop_protocol[OF _ _ assms(2), of 0] assms(1)
  obtain x where x: "protocol_failure x"
    "urlopen e (gets w + nat (retry c)) url (timeout c) = Raises x"
    "download_loop e c url 0 w =
       (Inl (DownloadError [] (Some x)),
        w\<lparr>trace := trace w @ replicate (Suc (nat (retry c))) (Urlopen url (timeout c))\<rparr>)"
    by auto
  let ?w' = "w\<lparr>trace := trace w @ replicate (Suc (nat (retry c))) (Urlopen url (timeout c))\<rparr>"
  have "gets ?w' = gets w + nat (retry c) + 1"
    by (simp add: gets_def)
  moreover have "sleeps ?w' = sleeps w"
    by (simp add: sleeps_def)
  ultimately show ?thesis
    using x by (intro exI[of _ x] exI[of _ ?w']) (simp add: download_wnid_def)
qed

theorem download_wnid_protocol_retries_witness:
  "download_wnid (network_of (\<lambda>k. Raises HTTPError)) example_config ''u'' empty_world
     = (Inl (DownloadError [] (Some HTTPError)),
        \<lparr>fs = (\<lambda>p. None),
         trace = [Urlopen ''u'' 10, Urlopen ''u'' 10, Urlopen ''u'' 10]\<rparr>)"
proof -
  have "\<forall>k\<le>nat (retry example_config).
      \<exists>x. urlopen (network_of (\<lambda>k. Raises HTTPError)) (gets empty_world + k) ''u''
             (timeout example_config) = Raises x \<and> protocol_failure x"
    by (simp add: network_of_def)
  from download_wnid_protocol_retries[OF _ this]
  obtain x w' where
    "urlopen (network_of (\<lambda>k. Raises HTTPError)) (gets empty_world + nat (retry example_config))
       ''u'' (timeout example_config) = Raises x"
    "download_wnid (network_of (\<lambda>k. Raises HTTPError)) example_config ''u'' empty_world
       = (Inl (DownloadError [] (Some x)), w')"
    "trace w' = trace empty_world
       @ replicate (nat (retry example_config) + 1) (Urlopen ''u'' (timeout example_config))"
    "fs w' = fs empty_world"
    by (auto simp: example_config_def)
  then show ?thesis
    by (cases w') (simp add: network_of_def example_config_def empty_world_def numeral_3_eq_3)
qed

text \<open>
  C8. When \<^verbatim>\<open>download_wnid\<close> raises \<^verbatim>\<open>DownloadError\<close> after a last attempt that raised the
  exception \<open>x\<close>, the attempts made exceed the retry count, and the \<^verbatim>\<open>DownloadError\<close> carries
  \<open>x\<close> as its \<^verbatim>\<open>__context__\<close> (the \<^verbatim>\<open>raise\<close> of lines 120 and 124 stands in the handler of
  \<open>x\<close>). The class of \<open>x\<close> tells the two kinds apart: \<open>x\<close> is a protocol failure or a
  transport failure, and never both. The \<^verbatim>\<open>message\<close> of the \<^verbatim>\<open>DownloadError\<close> is empty.
\<close>

theorem download_error_carries_cause:
  assumes "download_wnid e c url w = (Inl (DownloadError m ctx), w')"
    and "urlopen e (gets w' - 1) url (timeout c) = Raises x"
  shows "ctx = Some x \<and> m = [] \<and> protocol_failure x \<noteq> transport_failure x
      \<and> retry c < int (gets w' - gets w)"
  using download_loop_outcome[OF assms(1)[unfolded download_wnid_def]] assms(2)
  by (auto simp: transport_failure_def split: if_splits)

theorem download_error_carries_cause_witness:
  "download_wnid (network_of (\<lambda>k. if k < 2 then Raises TimeoutError else Raises HTTPError))
       example_config ''u'' empty_world
     = (Inl (DownloadError [] (Some HTTPError)),
        \<lparr>fs = (\<lambda>p. None),
         trace = [Urlopen ''u'' 10, Sleep (4 / 5), Urlopen ''u'' 10, Sleep (4 / 5),
                  Urlopen ''u'' 10]\<rparr>)
   \<and> protocol_failure HTTPError \<noteq> transport_failure HTTPError
   \<and> retry example_config < 3"
proof -
  let ?e = "network_of (\<lambda>k. if k < 2 then Raises TimeoutError else Raises HTTPError)"
  let ?w' = "\<lparr>fs = (\<lambda>p. None),
         trace = [Urlopen ''u'' 10, Sleep (4 / 5), Urlopen ''u'' 10, Sleep (4 / 5),
                  Urlopen ''u'' 10]\<rparr>"
  have run: "download_wnid ?e example_config ''u'' empty_world
      = (Inl (DownloadError [] (Some HTTPError)), ?w')"
    by (simp add: download_wnid_def download_loop.simps example_config_def network_of_def
        empty_world_def gets_def emit_def time_sleep_def)
  have last: "urlopen ?e (gets ?w' - 1) ''u'' (timeout example_config) = Raises HTTPError"
    by (simp add: network_of_def gets_def)
  from download_error_carries_cause[OF run last] run show ?thesis
    by (simp add: gets_def empty_world_def)
qed

section \<open>Properties of the URL builder\<close>

lemma split_scheme_alt:
  "split_scheme url = (if has_scheme url then (map ascii_lower (before CHR '':'' url), after CHR '':'' url)
      else ([], url))"
  by (simp add: split_scheme_def has_scheme_def)

lemma before_append_in: "ch \<in> set p \<Longrightarrow> before ch (p @ r) = before ch p"
  by (simp add: before_def takeWhile_append1)

lemma before_append_out: "ch \<notin> set p \<Longrightarrow> before ch (p @ r) = p @ before ch r"
  by (induction p) (auto simp: before_def)

lemma after_append_in: "ch \<in> set p \<Longrightarrow> after ch (p @ r) = after ch p @ r"
  by (induction p) (auto simp: after_def)

lemma after_append_out: "ch \<notin> set p \<Longrightarrow> after ch (p @ r) = after ch r"
  by (induction p) (auto simp: after_def)

lemma before_Cons_eq [simp]: "before ch (ch # r) = []"
  by (simp add: before_def)

lemma after_Cons_eq [simp]: "after ch (ch # r) = r"
  by (simp add: after_def)

lemma before_notin [simp]: "ch \<notin> set p \<Longrightarrow> before ch p = p"
  by (induction p) (auto simp: before_def)

lemma before_after: "ch \<in> set s \<Longrightarrow> s = before ch s @ ch # after ch s"
  by (induction s) (auto simp: before_def after_def)

lemma notin_before [simp]: "ch \<notin> set (before ch s)"
  by (induction s) (auto simp: before_def)

lemma set_before: "set (before ch s) \<subseteq> set s"
  by (auto simp: before_def dest: set_takeWhileD)

lemma set_after: "set (after ch s) \<subseteq> set s"
  unfolding after_def by (metis set_drop_subset set_dropWhileD subsetI subset_trans)

lemma scheme_char_alpha: "ascii_alpha ch \<Longrightarrow> scheme_char ch"
  by (simp add: scheme_char_def)

lemma not_scheme_char_delims [simp]:
  "\<not> scheme_char CHR ''/''" "\<not> scheme_char CHR '';''" "\<not> scheme_char CHR ''?''"
  "\<not> scheme_char CHR ''#''" "\<not> scheme_char CHR '':''"
  by (simp_all add: scheme_char_def ascii_alpha_def ascii_digit_def)

text \<open>A text with no scheme keeps having none when a delimiter and more text follow it.\<close>

lemma no_scheme_append:
  assumes "\<not> has_scheme p" and "r = [] \<or> hd r \<in> set ''/;?#''"
  shows "\<not> has_scheme (p @ r)"
proof
  assume h: "has_scheme (p @ r)"
  show False
  proof (cases "CHR '':'' \<in> set p")
    case True
    then have "p \<noteq> []" by auto
    with h True assms(1) show False
      by (simp add: has_scheme_def before_append_in)
  next
    case False
    with h have c: "CHR '':'' \<in> set r" by (auto simp: has_scheme_def)
    then obtain d r' where r: "r = d # r'" by (cases r) auto
    with assms(2) have d: "d \<in> set ''/;?#''" by simp
    then have dn: "d \<noteq> CHR '':''" "\<not> scheme_char d" by auto
    from h False have "list_all scheme_char (p @ before CHR '':'' r)"
      by (simp add: has_scheme_def before_append_out)
    moreover have "before CHR '':'' r = d # before CHR '':'' r'"
      using dn(1) r by (simp add: before_def)
    ultimately show False using dn(2) by simp
  qed
qed

lemma no_scheme_prefix:
  assumes "\<not> has_scheme (p @ r)"
  shows "\<not> has_scheme p"
proof
  assume h: "has_scheme p"
  then have "CHR '':'' \<in> set p" "p \<noteq> []" by (auto simp: has_scheme_def)
  with h have "has_scheme (p @ r)" by (simp add: has_scheme_def before_append_in)
  with assms show False by simp
qed

lemma no_scheme_slash:
  assumes "\<not> has_scheme p" and "CHR ''/'' \<in> set p"
  shows "\<not> has_scheme (p @ r)"
proof
  assume h: "has_scheme (p @ r)"
  show False
  proof (cases "CHR '':'' \<in> set p")
    case True
    then have "p \<noteq> []" by auto
    with h True assms(1) show False
      by (simp add: has_scheme_def before_append_in)
  next
    case False
    with h have "list_all scheme_char (p @ before CHR '':'' r)"
      by (simp add: has_scheme_def before_append_out)
    then have "\<forall>x\<in>set p. scheme_char x" by (simp add: list_all_iff)
    with assms(2) have "scheme_char CHR ''/''" by blast
    with not_scheme_char_delims(1) show False by blast
  qed
qed

lemma no_scheme_not_alpha: "p = [] \<or> \<not> ascii_alpha (hd p) \<Longrightarrow> \<not> has_scheme p"
  by (auto simp: has_scheme_def)

lemma of_char_lower:
  "0x41 \<le> (of_char ch :: nat) \<Longrightarrow> (of_char ch :: nat) \<le> 0x5A \<Longrightarrow>
     (of_char (ascii_lower ch) :: nat) = of_char ch + 32"
  by (simp add: ascii_lower_def Let_def)

lemma ascii_lower_alpha: "ascii_alpha ch \<Longrightarrow> ascii_alpha (ascii_lower ch)"
proof (cases "0x41 \<le> (of_char ch :: nat) \<and> (of_char ch :: nat) \<le> 0x5A")
  case True
  then show ?thesis using of_char_lower[of ch] by (simp add: ascii_alpha_def Let_def)
next
  case False
  moreover assume "ascii_alpha ch"
  ultimately show ?thesis by (auto simp: ascii_lower_def Let_def)
qed

lemma ascii_lower_scheme_char: "scheme_char ch \<Longrightarrow> scheme_char (ascii_lower ch)"
proof (cases "0x41 \<le> (of_char ch :: nat) \<and> (of_char ch :: nat) \<le> 0x5A")
  case True
  then have "ascii_alpha ch" by (simp add: ascii_alpha_def Let_def)
  then show ?thesis using ascii_lower_alpha scheme_char_alpha by blast
next
  case False
  moreover assume "scheme_char ch"
  ultimately show ?thesis by (auto simp: ascii_lower_def Let_def)
qed

lemma ascii_lower_idem: "ascii_lower (ascii_lower ch) = ascii_lower ch"
proof (cases "0x41 \<le> (of_char ch :: nat) \<and> (of_char ch :: nat) \<le> 0x5A")
  case True
  with of_char_lower[of ch] have "\<not> (of_char (ascii_lower ch) :: nat) \<le> 0x5A" by simp
  then show ?thesis by (subst ascii_lower_def) (simp add: Let_def)
next
  case False
  then show ?thesis by (auto simp: ascii_lower_def Let_def)
qed

lemma unsafe_is_c0: "unsafe_url_byte ch \<Longrightarrow> c0_control_or_space ch"
  by (auto simp: unsafe_url_byte_def c0_control_or_space_def)

lemma scheme_char_safe: "scheme_char ch \<Longrightarrow> \<not> unsafe_url_byte ch"
  by (auto simp: scheme_char_def ascii_alpha_def ascii_digit_def unsafe_url_byte_def Let_def)

lemma alpha_not_c0: "ascii_alpha ch \<Longrightarrow> \<not> c0_control_or_space ch"
  by (auto simp: ascii_alpha_def c0_control_or_space_def Let_def)

lemma scheme_ok_lower:
  assumes "has_scheme url"
  shows "scheme_ok (map ascii_lower (before CHR '':'' url))"
proof -
  let ?b = "before CHR '':'' url"
  from assms have b: "?b \<noteq> []" "ascii_alpha (hd url)" "list_all scheme_char ?b"
    by (auto simp: has_scheme_def)
  then have "hd ?b = hd url" by (cases url) (auto simp: before_def split: if_splits)
  with b have "ascii_alpha (hd (map ascii_lower ?b))"
    by (simp add: hd_map ascii_lower_alpha)
  moreover from b(3) have "list_all scheme_char (map ascii_lower ?b)"
    by (simp add: list_all_iff ascii_lower_scheme_char)
  moreover have "map ascii_lower (map ascii_lower ?b) = map ascii_lower ?b"
    by (simp add: ascii_lower_idem)
  ultimately show ?thesis by (simp add: scheme_ok_def)
qed

lemma url_safe_subset: "set a \<subseteq> set b \<Longrightarrow> url_safe b \<Longrightarrow> url_safe a"
  by (auto simp: url_safe_def list_all_iff)

lemma url_safe_append [simp]: "url_safe (a @ b) \<longleftrightarrow> url_safe a \<and> url_safe b"
  by (simp add: url_safe_def)

lemma url_safe_filter: "url_safe (filter (\<lambda>ch. \<not> unsafe_url_byte ch) s)"
  by (simp add: url_safe_def list_all_iff)

lemma filter_url_safe: "url_safe s \<Longrightarrow> filter (\<lambda>ch. \<not> unsafe_url_byte ch) s = s"
  by (simp add: url_safe_def list_all_iff)

lemma stripped_head:
  "filter (\<lambda>ch. \<not> unsafe_url_byte ch) (dropWhile c0_control_or_space url) = x # xs
     \<Longrightarrow> \<not> c0_control_or_space x"
proof -
  assume a: "filter (\<lambda>ch. \<not> unsafe_url_byte ch) (dropWhile c0_control_or_space url) = x # xs"
  have "dropWhile c0_control_or_space url \<noteq> []"
  proof
    assume "dropWhile c0_control_or_space url = []"
    with a show False by simp
  qed
  then obtain y ys where d: "dropWhile c0_control_or_space url = y # ys"
    by (cases "dropWhile c0_control_or_space url") auto
  then have "\<not> c0_control_or_space y" by (metis hd_dropWhile list.sel(1) list.distinct(1))
  then have "\<not> unsafe_url_byte y" using unsafe_is_c0 by blast
  with a d have "x = y" by simp
  with \<open>\<not> c0_control_or_space y\<close> show ?thesis by simp
qed

lemma urlsplit_ok:
  assumes "urlsplit e url = Inr t"
  shows "split_ok e t"
proof -
  define url1 where "url1 = filter (\<lambda>ch. \<not> unsafe_url_byte ch) (dropWhile c0_control_or_space url)"
  define sc where "sc = fst (split_scheme url1)"
  define url2 where "url2 = snd (split_scheme url1)"
  define n where "n = fst (if take 2 url2 = ''//'' then splitnetloc url2 else ([], url2))"
  define url3 where "url3 = snd (if take 2 url2 = ''//'' then splitnetloc url2 else ([], url2))"
  define url4 where "url4 = (if CHR ''#'' \<in> set url3 then before CHR ''#'' url3 else url3)"
  define f where "f = (if CHR ''#'' \<in> set url3 then after CHR ''#'' url3 else [])"
  define u where "u = (if CHR ''?'' \<in> set url4 then before CHR ''?'' url4 else url4)"
  define q where "q = (if CHR ''?'' \<in> set url4 then after CHR ''?'' url4 else [])"
  have eq: "urlsplit e url = (if netloc_error e n then Inl ValueError else Inr (sc, n, u, q, f))"
    unfolding urlsplit_def Let_def url1_def[symmetric]
    by (simp add: split_def sc_def url2_def n_def url3_def url4_def f_def u_def q_def)
  with assms have t: "t = (sc, n, u, q, f)" and ne: "\<not> netloc_error e n"
    by (auto split: if_splits)
  have safe1: "url_safe url1" unfolding url1_def by (rule url_safe_filter)
  have hd1: "url1 = [] \<or> \<not> c0_control_or_space (hd url1)"
    using stripped_head[of url] unfolding url1_def[symmetric] by (cases url1) auto
  have sub2: "set url2 \<subseteq> set url1"
    unfolding url2_def split_scheme_alt using set_after[of "CHR '':''" url1] by auto
  have sub3: "set url3 \<subseteq> set url2" and subn: "set n \<subseteq> set url2"
    unfolding url3_def n_def splitnetloc_def
    by (auto dest: set_dropWhileD set_takeWhileD in_set_dropD)
  have sub4: "set url4 \<subseteq> set url3" and subf: "set f \<subseteq> set url3"
    unfolding url4_def f_def using set_before[of "CHR ''#''" url3] set_after[of "CHR ''#''" url3]
    by auto
  have subu: "set u \<subseteq> set url4" and subq: "set q \<subseteq> set url4"
    unfolding u_def q_def using set_before[of "CHR ''?''" url4] set_after[of "CHR ''?''" url4]
    by auto
  have safe: "url_safe n" "url_safe u" "url_safe q" "url_safe f"
    using safe1 sub2 sub3 subn sub4 subf subu subq
    by (blast intro: url_safe_subset[OF _ safe1] dest: subsetD)+
  have sch: "scheme_ok sc"
    unfolding sc_def split_scheme_alt using scheme_ok_lower by (simp add: scheme_ok_def)
  have nd: "list_all (\<lambda>ch. \<not> netloc_delim ch) n"
    unfolding n_def splitnetloc_def by (auto simp: list_all_iff dest: set_takeWhileD)
  have h4: "CHR ''#'' \<notin> set url4" unfolding url4_def by simp
  then have hu: "CHR ''#'' \<notin> set u" "CHR ''#'' \<notin> set q" using subu subq by auto
  have qu: "CHR ''?'' \<notin> set u" unfolding u_def by simp
  have pre4: "\<exists>r. url3 = url4 @ r"
    unfolding url4_def using before_after[of "CHR ''#''" url3] by (metis append_Nil2)
  have preu: "\<exists>r. url4 = u @ r"
    unfolding u_def using before_after[of "CHR ''?''" url4] by (metis append_Nil2)
  from pre4 preu obtain r where r: "url3 = u @ r" by auto
  have ns: "\<not> has_scheme u \<and> (u = [] \<or> \<not> c0_control_or_space (hd u))" if s0: "sc = []"
  proof -
    from s0 have nh: "\<not> has_scheme url1" and u2: "url2 = url1"
      unfolding sc_def url2_def split_scheme_alt by (auto simp: has_scheme_def split: if_splits)
    show ?thesis
    proof (cases "take 2 url2 = ''//''")
      case True
      then have "url3 = dropWhile (\<lambda>ch. \<not> netloc_delim ch) (drop 2 url2)"
        by (simp add: url3_def splitnetloc_def)
      then have "url3 = [] \<or> netloc_delim (hd url3)"
        by (metis hd_dropWhile)
      with r have "u = [] \<or> netloc_delim (hd u)" by (cases u) auto
      with qu hu(1) have "u = [] \<or> hd u = CHR ''/''"
        by (cases u) (auto simp: netloc_delim_def)
      then show ?thesis
        by (auto simp: has_scheme_def ascii_alpha_def c0_control_or_space_def)
    next
      case False
      then have "url3 = url1" using u2 by (simp add: url3_def)
      with r have u1: "url1 = u @ r" by simp
      with nh have "\<not> has_scheme u" using no_scheme_prefix by blast
      moreover from u1 hd1 have "u = [] \<or> \<not> c0_control_or_space (hd u)" by (cases u) auto
      ultimately show ?thesis by simp
    qed
  qed
  show ?thesis unfolding t split_ok_def using sch nd ne safe hu qu ns by simp
qed

lemma dropWhile_id: "xs = [] \<or> \<not> P (hd xs) \<Longrightarrow> dropWhile P xs = xs"
  by (cases xs) auto

lemma scheme_ok_props:
  assumes "scheme_ok s" "s \<noteq> []"
  shows "ascii_alpha (hd s)" "list_all scheme_char s" "map ascii_lower s = s"
    "CHR '':'' \<notin> set s" "url_safe s"
proof -
  from assms show a: "ascii_alpha (hd s)" and b: "list_all scheme_char s"
    and "map ascii_lower s = s"
    by (auto simp: scheme_ok_def)
  from b show "CHR '':'' \<notin> set s"
    using not_scheme_char_delims(5) by (auto simp: list_all_iff)
  from b show "url_safe s" by (auto simp: url_safe_def list_all_iff scheme_char_safe)
qed

lemma split_scheme_scheme:
  assumes "scheme_ok s" "s \<noteq> []"
  shows "split_scheme (s @ '':'' @ r) = (s, r)"
proof -
  note p = scheme_ok_props[OF assms]
  have b: "before CHR '':'' (s @ '':'' @ r) = s"
    using p(4) by (simp add: before_append_out)
  have a: "after CHR '':'' (s @ '':'' @ r) = r"
    using p(4) by (simp add: after_append_out)
  have "has_scheme (s @ '':'' @ r)"
    unfolding has_scheme_def b using assms(2) p(1,2) by simp
  then show ?thesis unfolding split_scheme_alt b a using p(3) by simp
qed

lemma splitnetloc_rebuilt:
  assumes "list_all (\<lambda>ch. \<not> netloc_delim ch) n" and "t = [] \<or> netloc_delim (hd t)"
  shows "splitnetloc (''//'' @ n @ t) = (n, t)"
proof -
  from assms(1) have 1: "takeWhile (\<lambda>ch. \<not> netloc_delim ch) (n @ t) = n @ takeWhile (\<lambda>ch. \<not> netloc_delim ch) t"
    by (simp add: takeWhile_append2 list_all_iff)
  from assms(1) have 2: "dropWhile (\<lambda>ch. \<not> netloc_delim ch) (n @ t) = dropWhile (\<lambda>ch. \<not> netloc_delim ch) t"
    by (simp add: dropWhile_append2 list_all_iff)
  from assms(2) have 3: "takeWhile (\<lambda>ch. \<not> netloc_delim ch) t = []" "dropWhile (\<lambda>ch. \<not> netloc_delim ch) t = t"
    by (cases t; auto)+
  show ?thesis by (simp add: splitnetloc_def 1 2 3)
qed

lemma urlunsplit_parts:
  "urlunsplit (s, n, u, q, f) =
     (if s \<noteq> [] then s @ '':'' else [])
     @ (if n \<noteq> [] \<or> (s \<noteq> [] \<and> s \<in> set uses_netloc) \<or> take 2 u = ''//''
        then ''//'' @ n @ (if u \<noteq> [] \<and> take 1 u \<noteq> ''/'' then ''/'' @ u else u) else u)
     @ (if q \<noteq> [] then ''?'' @ q else [])
     @ (if f \<noteq> [] then ''#'' @ f else [])"
  by (simp add: urlunsplit_def Let_def)

lemma urlsplit_urlunsplit:
  assumes ok: "split_ok e (s, n, u, q, f)"
  shows "urlsplit e (urlunsplit (s, n, u, q, f)) =
     Inr (s, n,
          (if (n \<noteq> [] \<or> (s \<noteq> [] \<and> s \<in> set uses_netloc) \<or> take 2 u = ''//'')
               \<and> u \<noteq> [] \<and> take 1 u \<noteq> ''/'' then ''/'' @ u else u),
          q, f)"
proof -
  define cond where "cond \<longleftrightarrow> n \<noteq> [] \<or> (s \<noteq> [] \<and> s \<in> set uses_netloc) \<or> take 2 u = ''//''"
  define u' where "u' = (if cond \<and> u \<noteq> [] \<and> take 1 u \<noteq> ''/'' then ''/'' @ u else u)"
  define qp where "qp = (if q \<noteq> [] then ''?'' @ q else [])"
  define fp where "fp = (if f \<noteq> [] then ''#'' @ f else [])"
  define body where "body = (if cond then ''//'' @ n @ u' else u)"
  define out where "out = urlunsplit (s, n, u, q, f)"
  from ok have sok: "scheme_ok s" and nd: "list_all (\<lambda>ch. \<not> netloc_delim ch) n"
    and ne: "\<not> netloc_error e n"
    and safe: "url_safe n" "url_safe u" "url_safe q" "url_safe f"
    and uq: "CHR ''?'' \<notin> set u" and uh: "CHR ''#'' \<notin> set u" and qh: "CHR ''#'' \<notin> set q"
    and s0: "s = [] \<Longrightarrow> \<not> has_scheme u \<and> (u = [] \<or> \<not> c0_control_or_space (hd u))"
    by (auto simp: split_ok_def)
  have out: "out = (if s \<noteq> [] then s @ '':'' else []) @ body @ qp @ fp"
    unfolding out_def urlunsplit_parts body_def u'_def cond_def qp_def fp_def by simp
  have u'q: "CHR ''?'' \<notin> set u'" and u'h: "CHR ''#'' \<notin> set u'" and u's: "url_safe u'"
    using uq uh safe(2) by (auto simp: u'_def url_safe_def unsafe_url_byte_def)
  have u'd: "cond \<Longrightarrow> u' = [] \<or> netloc_delim (hd u')"
    unfolding u'_def by (cases u) (auto simp: netloc_delim_def)
  have tail_delim: "x = [] \<or> hd x \<in> set ''/;?#''" if "x = qp @ fp" for x
    using that by (auto simp: qp_def fp_def)
  \<comment> \<open>nothing is stripped or removed\<close>
  have safe_out: "url_safe out"
    unfolding out body_def qp_def fp_def using safe u's sok scheme_ok_props(5)[of s]
    by (auto simp: url_safe_def unsafe_url_byte_def)
  have hd_out: "out = [] \<or> \<not> c0_control_or_space (hd out)"
  proof (cases "s = []")
    case False
    with sok have "ascii_alpha (hd s)" by (simp add: scheme_ok_def)
    with False show ?thesis unfolding out by (simp add: alpha_not_c0)
  next
    case True
    show ?thesis
    proof (cases cond)
      case True
      with \<open>s = []\<close> show ?thesis unfolding out body_def
        by (simp add: c0_control_or_space_def)
    next
      case False
      show ?thesis
      proof (cases u)
        case Nil
        with False \<open>s = []\<close> show ?thesis unfolding out body_def qp_def fp_def
          by (auto simp: c0_control_or_space_def)
      next
        case (Cons a as)
        with s0[OF \<open>s = []\<close>] False \<open>s = []\<close> show ?thesis unfolding out body_def by simp
      qed
    qed
  qed
  have strip: "filter (\<lambda>ch. \<not> unsafe_url_byte ch) (dropWhile c0_control_or_space out) = out"
    using dropWhile_id[of out c0_control_or_space, OF hd_out] filter_url_safe[OF safe_out] by simp
  \<comment> \<open>the scheme\<close>
  have sch: "split_scheme out = (s, body @ qp @ fp)"
  proof (cases "s = []")
    case False
    with split_scheme_scheme[OF sok False] show ?thesis unfolding out by simp
  next
    case True
    have "\<not> has_scheme (body @ qp @ fp)"
    proof (cases cond)
      case True
      then show ?thesis unfolding body_def by (simp add: has_scheme_def ascii_alpha_def)
    next
      case False
      from s0[OF \<open>s = []\<close>] have "\<not> has_scheme u" by simp
      from no_scheme_append[OF this tail_delim[OF refl]] False show ?thesis
        unfolding body_def by simp
    qed
    with True show ?thesis unfolding out split_scheme_alt by simp
  qed
  \<comment> \<open>the host\<close>
  have net: "(if take 2 (body @ qp @ fp) = ''//'' then splitnetloc (body @ qp @ fp)
              else ([], body @ qp @ fp)) = (n, u' @ qp @ fp)"
  proof (cases cond)
    case True
    have "u' @ qp @ fp = [] \<or> netloc_delim (hd (u' @ qp @ fp))"
      using u'd[OF True] by (cases u') (auto simp: qp_def fp_def netloc_delim_def)
    from splitnetloc_rebuilt[OF nd this] True show ?thesis unfolding body_def by simp
  next
    case False
    then have n0: "n = []" and t2: "take 2 u \<noteq> ''//''" by (auto simp: cond_def)
    from False have u'u: "u' = u" by (simp add: u'_def)
    have "take 2 (u @ qp @ fp) \<noteq> ''//''"
    proof (cases u)
      case Nil
      then show ?thesis by (auto simp: qp_def fp_def)
    next
      case (Cons a as)
      show ?thesis
      proof (cases as)
        case Nil
        with Cons show ?thesis by (auto simp: qp_def fp_def)
      next
        case (Cons b bs)
        with \<open>u = a # as\<close> t2 show ?thesis by simp
      qed
    qed
    with False n0 u'u show ?thesis unfolding body_def by simp
  qed
  \<comment> \<open>the fragment and the query\<close>
  have fr: "CHR ''#'' \<in> set (u' @ qp @ fp) \<longleftrightarrow> f \<noteq> []"
    "f \<noteq> [] \<Longrightarrow> before CHR ''#'' (u' @ qp @ fp) = u' @ qp"
    "f \<noteq> [] \<Longrightarrow> after CHR ''#'' (u' @ qp @ fp) = f"
    using u'h qh
    by (auto simp: qp_def fp_def before_append_out after_append_out)
  have qu: "CHR ''?'' \<in> set (u' @ qp) \<longleftrightarrow> q \<noteq> []"
    "q \<noteq> [] \<Longrightarrow> before CHR ''?'' (u' @ qp) = u'"
    "q \<noteq> [] \<Longrightarrow> after CHR ''?'' (u' @ qp) = q"
    using u'q
    by (auto simp: qp_def before_append_out after_append_out)
  have f0: "f = [] \<Longrightarrow> u' @ qp @ fp = u' @ qp" by (simp add: fp_def)
  have q0: "q = [] \<Longrightarrow> u' @ qp = u'" by (simp add: qp_def)
  have "urlsplit e out = Inr (s, n, u', q, f)"
    unfolding urlsplit_def Let_def strip sch prod.case net
    using ne fr qu f0 q0 by (cases "f = []"; cases "q = []") simp_all
  then show ?thesis unfolding out_def u'_def cond_def .
qed

lemma split_on_notin: "ch \<notin> set x \<Longrightarrow> split_on ch x = [x]"
  by (induction x) auto

lemma split_on_append: "ch \<notin> set x \<Longrightarrow> split_on ch (x @ ch # r) = x # split_on ch r"
  by (induction x) auto

lemma split_on_join:
  "xs \<noteq> [] \<Longrightarrow> \<forall>x\<in>set xs. ch \<notin> set x \<Longrightarrow> split_on ch (join_with [ch] xs) = xs"
proof (induction "[ch]" xs rule: join_with.induct)
  case 1
  then show ?case by simp
next
  case (2 x)
  then show ?case by (simp add: split_on_notin)
next
  case (3 x y ys)
  then show ?case by (simp add: split_on_append)
qed

lemma hexdigit_set: "hexdigit n \<in> set ''0123456789ABCDEF''"
  unfolding hexdigit_def by (rule nth_mem) simp

lemma hexdigit_safe: "always_safe (hexdigit n)"
  using hexdigit_set[of n]
  by (auto simp: always_safe_def ascii_alpha_def ascii_digit_def)

lemma hexdigit_inj:
  assumes "hexdigit a = hexdigit b" "a < 16" "b < 16"
  shows "a = b"
proof -
  have d: "distinct ''0123456789ABCDEF''" by simp
  from assms show ?thesis unfolding hexdigit_def
    using nth_eq_iff_index_eq[OF d, of a b] by simp
qed

lemma quote_byte_chars: "ch' \<in> set (quote_byte ch) \<Longrightarrow> quoted_char ch'"
  by (auto simp: quote_byte_def quoted_char_def hexdigit_safe split: if_splits)

lemma quote_plus_chars: "ch \<in> set (quote_plus s) \<Longrightarrow> quoted_char ch"
  by (auto simp: quote_plus_def dest: quote_byte_chars)

lemma quoted_char_plain:
  assumes "quoted_char ch"
  shows "ch \<noteq> CHR ''&''" "ch \<noteq> CHR ''=''" "ch \<noteq> CHR ''#''" "ch \<noteq> CHR ''?''"
    "\<not> unsafe_url_byte ch"
  using assms
  by (auto simp: quoted_char_def always_safe_def ascii_alpha_def ascii_digit_def
      unsafe_url_byte_def Let_def)

lemma not_safe_specials [simp]: "\<not> always_safe CHR ''+''" "\<not> always_safe CHR ''%''"
  "\<not> always_safe CHR '' ''"
  by (simp_all add: always_safe_def ascii_alpha_def ascii_digit_def)

lemma quote_byte_inj:
  assumes "quote_byte a @ r = quote_byte b @ t"
  shows "a = b \<and> r = t"
proof -
  have nib: "(of_char a :: nat) div 16 < 16" "(of_char a :: nat) mod 16 < 16"
    "(of_char b :: nat) div 16 < 16" "(of_char b :: nat) mod 16 < 16"
    using nat_of_char_less_256[of a] nat_of_char_less_256[of b] by presburger+
  consider (sp) "a = CHR '' ''" | (sf) "a \<noteq> CHR '' ''" "always_safe a"
    | (pc) "a \<noteq> CHR '' ''" "\<not> always_safe a" by blast
  then show ?thesis
  proof cases
    case sp
    with assms show ?thesis
      by (auto simp: quote_byte_def split: if_splits)
  next
    case sf
    with assms show ?thesis
      by (auto simp: quote_byte_def split: if_splits)
  next
    case pc
    with assms have b: "b \<noteq> CHR '' ''" "\<not> always_safe b"
      by (auto simp: quote_byte_def split: if_splits)
    with pc assms have h: "hexdigit ((of_char a :: nat) div 16) = hexdigit ((of_char b :: nat) div 16)"
      "hexdigit ((of_char a :: nat) mod 16) = hexdigit ((of_char b :: nat) mod 16)" "r = t"
      by (auto simp: quote_byte_def)
    from hexdigit_inj[OF h(1) nib(1,3)] hexdigit_inj[OF h(2) nib(2,4)]
    have "(of_char a :: nat) div 16 = of_char b div 16" "(of_char a :: nat) mod 16 = of_char b mod 16"
      by simp_all
    then have "(of_char a :: nat) = of_char b"
      by (metis div_mult_mod_eq)
    then have "a = b" by simp
    with h(3) show ?thesis by simp
  qed
qed

lemma quote_byte_nonempty: "quote_byte a \<noteq> []"
  by (simp add: quote_byte_def)

lemma quote_plus_inj: "quote_plus a = quote_plus b \<Longrightarrow> a = b"
proof (induction a arbitrary: b)
  case Nil
  then show ?case
    by (cases b) (auto simp: quote_plus_def quote_byte_nonempty)
next
  case (Cons x xs)
  show ?case
  proof (cases b)
    case Nil
    with Cons.prems show ?thesis by (auto simp: quote_plus_def quote_byte_nonempty)
  next
    case (Cons y ys)
    with Cons.prems have "quote_byte x @ quote_plus xs = quote_byte y @ quote_plus ys"
      by (simp add: quote_plus_def)
    from quote_byte_inj[OF this] Cons.IH Cons show ?thesis by auto
  qed
qed

lemma encode_pair_key: "before CHR ''='' (encode_pair kv) = quote_plus (fst kv)"
proof -
  have "CHR ''='' \<notin> set (quote_plus (fst kv))"
    using quote_plus_chars quoted_char_plain(2) by blast
  then show ?thesis by (simp add: encode_pair_def before_append_out)
qed

lemma encode_pair_value: "after CHR ''='' (encode_pair kv) = quote_plus (snd kv)"
proof -
  have "CHR ''='' \<notin> set (quote_plus (fst kv))"
    using quote_plus_chars quoted_char_plain(2) by blast
  then show ?thesis by (simp add: encode_pair_def after_append_out)
qed

lemma encode_pair_inj: "encode_pair a = encode_pair b \<Longrightarrow> a = b"
proof -
  assume e: "encode_pair a = encode_pair b"
  then have "quote_plus (fst a) = quote_plus (fst b)" "quote_plus (snd a) = quote_plus (snd b)"
    using encode_pair_key encode_pair_value by metis+
  then show ?thesis using quote_plus_inj by (simp add: prod_eq_iff)
qed

lemma encode_pair_chars: "ch \<in> set (encode_pair kv) \<Longrightarrow> quoted_char ch \<or> ch = CHR ''=''"
  by (auto simp: encode_pair_def dest: quote_plus_chars)

lemma encode_pair_no_amp: "CHR ''&'' \<notin> set (encode_pair kv)"
  using encode_pair_chars quoted_char_plain(1) by fastforce

lemma join_with_chars:
  "ch \<in> set (join_with sep xs) \<Longrightarrow> ch \<in> set sep \<or> (\<exists>x\<in>set xs. ch \<in> set x)"
  by (induction sep xs rule: join_with.induct) auto

lemma urlencode_chars:
  "ch \<in> set (urlencode d) \<Longrightarrow> quoted_char ch \<or> ch = CHR ''='' \<or> ch = CHR ''&''"
  unfolding urlencode_def using join_with_chars[of ch "''&''" "map encode_pair d"]
  by (auto dest: encode_pair_chars)

lemma urlencode_plain: "CHR ''#'' \<notin> set (urlencode d)" "url_safe (urlencode d)"
proof -
  show "CHR ''#'' \<notin> set (urlencode d)"
    using urlencode_chars[of "CHR ''#''" d] quoted_char_plain(3) by auto
  have "\<not> unsafe_url_byte ch" if "ch \<in> set (urlencode d)" for ch
  proof -
    from urlencode_chars[OF that] consider "quoted_char ch" | "ch = CHR ''=''" | "ch = CHR ''&''"
      by blast
    then show ?thesis
    proof cases
      case 1
      then show ?thesis by (rule quoted_char_plain(5))
    qed (simp_all add: unsafe_url_byte_def)
  qed
  then show "url_safe (urlencode d)"
    unfolding url_safe_def list_all_iff by blast
qed

lemma dict_set_fresh: "k \<notin> fst ` set d \<Longrightarrow> dict_set d k v = d @ [(k, v)]"
  by (simp add: dict_set_def)

lemma dict_of_distinct_aux:
  "distinct (map fst (acc @ items)) \<Longrightarrow>
     foldl (\<lambda>d (k, v). dict_set d k v) acc items = acc @ items"
proof (induction items arbitrary: acc)
  case Nil
  then show ?case by simp
next
  case (Cons kv items)
  obtain k v where kv: "kv = (k, v)" by (cases kv)
  from Cons.prems kv have "k \<notin> fst ` set acc" by auto
  then have "dict_set acc k v = acc @ [(k, v)]" by (rule dict_set_fresh)
  moreover from Cons.prems kv have "distinct (map fst ((acc @ [(k, v)]) @ items))" by simp
  ultimately show ?case using Cons.IH[of "acc @ [(k, v)]"] kv by simp
qed

lemma dict_of_distinct: "distinct (map fst items) \<Longrightarrow> dict_of items = items"
  using dict_of_distinct_aux[of "[]" items] by (simp add: dict_of_def)

lemma present_simps [simp]:
  "present [] = []"
  "present ((k, None) # ps) = present ps"
  "present ((k, Some v) # ps) = (k, v) # present ps"
  by (simp_all add: present_def)

lemma encode_items_present: "encode_items c ps = Inr items \<Longrightarrow> items = present ps"
proof (induction c ps arbitrary: items rule: encode_items.induct)
  case (1 c)
  then show ?case by simp
next
  case (2 c k ps)
  then show ?case by simp
next
  case (3 c k v ps)
  then show ?case
    by (auto simp: encode_value_def split: sum.splits option.splits if_splits)
qed

lemma present_keys: "(k, v) \<in> set (present ps) \<longleftrightarrow> (k, Some v) \<in> set ps"
proof (induction ps)
  case Nil
  then show ?case by simp
next
  case (Cons a ps)
  obtain k' v' where a: "a = (k', v')" by (cases a)
  with Cons show ?case by (cases v') auto
qed

lemma present_fst: "fst ` set (present ps) \<subseteq> fst ` set ps"
proof
  fix k assume "k \<in> fst ` set (present ps)"
  then obtain v where "(k, v) \<in> set (present ps)" by auto
  then have "(k, Some v) \<in> set ps" by (simp add: present_keys)
  then show "k \<in> fst ` set ps" by force
qed

lemma present_distinct: "distinct (map fst ps) \<Longrightarrow> distinct (map fst (present ps))"
proof (induction ps)
  case Nil
  then show ?case by simp
next
  case (Cons a ps)
  obtain k' v' where a: "a = (k', v')" by (cases a)
  with Cons present_fst[of ps] show ?case by (cases v') auto
qed

lemma splitparams_shape:
  assumes "CHR '';'' \<in> set u" and "splitparams u = (p, pa)"
  shows "(u = p \<and> pa = []) \<or> u = p @ '';'' @ pa"
proof (cases "CHR ''/'' \<in> set u")
  case False
  with assms(2) have "p = before CHR '';'' u" "pa = after CHR '';'' u"
    by (simp_all add: splitparams_def)
  with before_after[OF assms(1)] show ?thesis by simp
next
  case True
  define seg where "seg = rev (takeWhile (\<lambda>ch. ch \<noteq> CHR ''/'') (rev u))"
  define head where "head = take (length u - length seg) u"
  have "rev u = takeWhile (\<lambda>ch. ch \<noteq> CHR ''/'') (rev u) @ dropWhile (\<lambda>ch. ch \<noteq> CHR ''/'') (rev u)"
    by simp
  then have "u = rev (dropWhile (\<lambda>ch. ch \<noteq> CHR ''/'') (rev u)) @ seg"
    unfolding seg_def by (metis rev_append rev_rev_ident)
  then have u: "u = head @ seg"
    unfolding head_def by (metis append_eq_conv_conj diff_add_inverse2 length_append)
  show ?thesis
  proof (cases "CHR '';'' \<in> set seg")
    case False
    with True assms(2) show ?thesis
      by (simp add: splitparams_def Let_def seg_def[symmetric])
  next
    case s: True
    with True assms(2) have "p = head @ before CHR '';'' seg" "pa = after CHR '';'' seg"
      by (simp_all add: splitparams_def Let_def seg_def[symmetric] head_def[symmetric])
    with before_after[OF s] u show ?thesis by simp
  qed
qed

lemma urlparse_split:
  assumes "urlparse e url = Inr (s, n, p, pa, q, f)"
  shows "\<exists>u. urlsplit e url = Inr (s, n, u, q, f) \<and> ((u = p \<and> pa = []) \<or> u = p @ '';'' @ pa)"
proof (cases "urlsplit e url")
  case (Inl x)
  with assms show ?thesis by (simp add: urlparse_def)
next
  case (Inr t)
  obtain s' n' u q' f' where t: "t = (s', n', u, q', f')" by (cases t)
  show ?thesis
  proof (cases "s' \<in> set uses_params \<and> CHR '';'' \<in> set u")
    case False
    with assms Inr t show ?thesis by (auto simp: urlparse_def)
  next
    case True
    obtain p' pa' where sp: "splitparams u = (p', pa')" by (cases "splitparams u")
    with assms Inr t True have "s = s'" "n = n'" "p = p'" "pa = pa'" "q = q'" "f = f'"
      by (auto simp: urlparse_def)
    with splitparams_shape[OF _ sp] True Inr t show ?thesis by auto
  qed
qed

lemma urlparse_of_split:
  assumes "urlsplit e x = Inr (s, n, u, q, f)"
  shows "\<exists>p pa. urlparse e x = Inr (s, n, p, pa, q, f)"
  using assms by (auto simp: urlparse_def Let_def split: prod.splits)

lemma join_with_clean:
  "list_all clean_segment xs \<Longrightarrow> clean_segment (join_with ''/'' xs)"
  by (induction "''/''" xs rule: join_with.induct)
     (auto simp: clean_segment_def url_safe_def unsafe_url_byte_def)

text \<open>The path \<open>build_url\<close> builds is the base path, or the base path, a slash and more.\<close>

lemma built_path_shape:
  assumes "clean_components components"
  shows "\<exists>x. built_path p components = p @ x \<and> clean_segment x
           \<and> (x = [] \<or> hd x = CHR ''/'' \<or> CHR ''/'' \<in> set p)"
proof (cases components)
  case None
  then show ?thesis by (simp add: built_path_def clean_segment_def url_safe_def)
next
  case (Some cs)
  with assms have j: "clean_segment (join_with ''/'' (truthy_components cs))"
    by (simp add: clean_components_def join_with_clean)
  show ?thesis
  proof (cases "cs = []")
    case True
    with Some show ?thesis by (simp add: built_path_def clean_segment_def url_safe_def)
  next
    case False
    show ?thesis
    proof (cases "p \<noteq> [] \<and> last p = CHR ''/''")
      case True
      then have "CHR ''/'' \<in> set p" by (metis last_in_set)
      with Some False True j show ?thesis by (simp add: built_path_def)
    next
      case np: False
      have "clean_segment (''/'' @ join_with ''/'' (truthy_components cs))"
        using j by (simp add: clean_segment_def url_safe_def unsafe_url_byte_def)
      with Some False np show ?thesis
        by (intro exI[of _ "''/'' @ join_with ''/'' (truthy_components cs)"])
           (simp add: built_path_def)
    qed
  qed
qed

lemma build_url_result:
  assumes "urlparse e url = Inr (s, n, p, pa, q, f)"
    and "build_url e c url components params_extra = Inr out"
  shows "out = urlunparse (s, n, built_path p components, pa, built_query q params_extra, f)"
proof -
  show ?thesis
  proof (cases params_extra)
    case None
    with assms show ?thesis
      by (simp add: build_url_def built_query_def built_path_def Let_def)
  next
    case (Some ps)
    show ?thesis
    proof (cases "ps = []")
      case True
      with Some assms show ?thesis
        by (simp add: build_url_def built_query_def built_path_def Let_def)
    next
      case False
      show ?thesis
      proof (cases "encode_items c ps")
        case (Inl x)
        with Some False assms show ?thesis
          by (simp add: build_url_def encode_params_def Let_def)
      next
        case (Inr items)
        then have "items = present ps" by (rule encode_items_present)
        with Inr Some False assms show ?thesis
          by (cases "q = []")
             (simp_all add: build_url_def encode_params_def built_query_def built_path_def Let_def)
      qed
    qed
  qed
qed

lemma built_query_plain:
  assumes "CHR ''#'' \<notin> set q" "url_safe q"
  shows "CHR ''#'' \<notin> set (built_query q params_extra)" "url_safe (built_query q params_extra)"
  using assms urlencode_plain
  by (auto simp: built_query_def split: option.splits)

text \<open>
  The round trip: what \<open>urlunparse\<close> makes of the scheme, host, query and fragment of a
  parsed URL, a path extended by clean segments and a query extended by encoded
  parameters, parses back into that scheme, host, query and fragment.
\<close>

lemma urlparse_built:
  assumes parse: "urlparse e url = Inr (s, n, p, pa, q, f)"
    and clean: "clean_components components"
  shows "\<exists>p' pa'. urlparse e
            (urlunparse (s, n, built_path p components, pa, built_query q params_extra, f))
          = Inr (s, n, p', pa', built_query q params_extra, f)"
proof -
  from urlparse_split[OF parse] obtain u where
    split: "urlsplit e url = Inr (s, n, u, q, f)"
    and u: "(u = p \<and> pa = []) \<or> u = p @ '';'' @ pa" by blast
  from urlsplit_ok[OF split] have sok: "scheme_ok s"
    and nd: "list_all (\<lambda>ch. \<not> netloc_delim ch) n" and ne: "\<not> netloc_error e n"
    and safe: "url_safe n" "url_safe u" "url_safe q" "url_safe f"
    and uq: "CHR ''?'' \<notin> set u" and uh: "CHR ''#'' \<notin> set u" and qh: "CHR ''#'' \<notin> set q"
    and s0: "s = [] \<Longrightarrow> \<not> has_scheme u \<and> (u = [] \<or> \<not> c0_control_or_space (hd u))"
    by (auto simp: split_ok_def)
  from u have pu: "set p \<subseteq> set u" "set pa \<subseteq> set u" by auto
  from u obtain r where r: "u = p @ r" by auto
  from built_path_shape[OF clean, of p] obtain x where
    x: "built_path p components = p @ x" "clean_segment x"
       "x = [] \<or> hd x = CHR ''/'' \<or> CHR ''/'' \<in> set p" by blast
  define p1 where "p1 = built_path p components"
  define q1 where "q1 = built_query q params_extra"
  define u1 where "u1 = (if pa \<noteq> [] then p1 @ '';'' @ pa else p1)"
  have p1: "p1 = p @ x" by (simp add: p1_def x(1))
  have p1c: "CHR ''?'' \<notin> set p1" "CHR ''#'' \<notin> set p1" "url_safe p1"
    using pu uq uh safe(2) x(2) unfolding p1
    by (auto simp: clean_segment_def intro: url_safe_subset[OF pu(1)])
  have pac: "CHR ''?'' \<notin> set pa" "CHR ''#'' \<notin> set pa" "url_safe pa"
    using pu uq uh safe(2) by (auto intro: url_safe_subset[OF pu(2)])
  have u1c: "CHR ''?'' \<notin> set u1" "CHR ''#'' \<notin> set u1" "url_safe u1"
    using p1c pac by (auto simp: u1_def url_safe_def unsafe_url_byte_def)
  have q1c: "CHR ''#'' \<notin> set q1" "url_safe q1"
    unfolding q1_def using built_query_plain[OF qh safe(3)] by simp_all
  have ns: "\<not> has_scheme u1 \<and> (u1 = [] \<or> \<not> c0_control_or_space (hd u1))" if "s = []"
  proof -
    from s0[OF that] r have nsp: "\<not> has_scheme p" using no_scheme_prefix by blast
    have nsp1: "\<not> has_scheme p1"
    proof (cases "CHR ''/'' \<in> set p")
      case True
      from no_scheme_slash[OF nsp True] show ?thesis by (simp add: p1)
    next
      case False
      with x(3) have "x = [] \<or> hd x \<in> set ''/;?#''" by auto
      from no_scheme_append[OF nsp this] show ?thesis by (simp add: p1)
    qed
    have "\<not> has_scheme u1"
      unfolding u1_def using no_scheme_append[OF nsp1, of "'';'' @ pa"] nsp1 by simp
    moreover have "u1 = [] \<or> \<not> c0_control_or_space (hd u1)"
    proof (cases p)
      case (Cons a as)
      with r s0[OF that] have "\<not> c0_control_or_space a" by auto
      with Cons show ?thesis by (simp add: u1_def p1)
    next
      case Nil
      with x(3) have "x = [] \<or> hd x = CHR ''/''" by simp
      then show ?thesis
        by (cases x) (auto simp: u1_def p1 Nil c0_control_or_space_def)
    qed
    ultimately show ?thesis by simp
  qed
  have ok: "split_ok e (s, n, u1, q1, f)"
    unfolding split_ok_def using sok nd ne safe(1,4) u1c q1c ns by simp
  have "urlunparse (s, n, p1, pa, q1, f) = urlunsplit (s, n, u1, q1, f)"
    by (simp add: urlunparse_def u1_def)
  with urlsplit_urlunsplit[OF ok] urlparse_of_split
  show ?thesis unfolding p1_def q1_def by metis
qed

lemma encode_params_built:
  assumes "urlparse e url = Inr (s, n, p, pa, q, f)" and "ps \<noteq> []"
    and "build_url e c url components (Some ps) = Inr out"
  shows "encode_params c ps = Inr (urlencode (dict_of (present ps)))"
proof (cases "encode_items c ps")
  case (Inl x)
  with assms show ?thesis by (simp add: build_url_def encode_params_def Let_def)
next
  case (Inr items)
  with encode_items_present[OF Inr] show ?thesis by (simp add: encode_params_def)
qed



lemma urlencode_nonempty: "d \<noteq> [] \<Longrightarrow> urlencode d \<noteq> []"
proof (cases d)
  case Nil
  moreover assume "d \<noteq> []"
  ultimately show ?thesis by simp
next
  case (Cons a as)
  have "encode_pair a \<noteq> []" by (simp add: encode_pair_def)
  then show ?thesis unfolding urlencode_def Cons by (cases as) auto
qed

lemma query_pairs_urlencode: "query_pairs (urlencode d) = map encode_pair d"
proof (cases "d = []")
  case True
  then show ?thesis by (simp add: query_pairs_def urlencode_def)
next
  case False
  have "split_on CHR ''&'' (join_with [CHR ''&''] (map encode_pair d)) = map encode_pair d"
    using False by (intro split_on_join) (auto simp: encode_pair_no_amp)
  with urlencode_nonempty[OF False] show ?thesis
    by (simp add: query_pairs_def urlencode_def)
qed

lemma count_list_inj_map:
  "inj f \<Longrightarrow> count_list (map f xs) (f x) = count_list xs x"
  by (induction xs) (auto dest: injD)

lemma count_list_distinct: "distinct xs \<Longrightarrow> x \<in> set xs \<Longrightarrow> count_list xs x = 1"
  by (induction xs) (auto simp: count_list_0_iff)

lemma distinct_fst: "distinct (map fst xs) \<Longrightarrow> distinct xs"
  by (induction xs) force+

lemma distinct_keys_value:
  "distinct (map fst xs) \<Longrightarrow> (k, a) \<in> set xs \<Longrightarrow> (k, b) \<in> set xs \<Longrightarrow> a = b"
  by (induction xs) force+





section \<open>Properties of the orchestrator\<close>

lemma download_wnid_outcome:
  assumes "download_wnid e c url w = (r, w')"
  shows "fs w' = fs w"
    and "\<exists>evs. trace w' = trace w @ evs \<and> list_all (\<lambda>ev. is_urlopen ev \<or> is_sleep ev) evs"
    and "gets w < gets w'"
    and "r = Inr b \<Longrightarrow> urlopen e (gets w' - 1) url (timeout c) = Body b"
  using download_loop_outcome[OF assms[unfolded download_wnid_def]]
  by (auto split: response.splits if_splits)

lemma isfile_iff: "os_path_isfile w p \<longleftrightarrow> (\<exists>b. fs w p = Some (File b))"
  by (auto simp: os_path_isfile_def split: option.splits node.splits)

lemma isdir_iff: "os_path_isdir w p \<longleftrightarrow> fs w p = Some Dir"
  by (auto simp: os_path_isdir_def split: option.splits node.splits)

lemma open_wb_write_cases:
  "open_wb_write p content w = (r, w') \<Longrightarrow>
     (open_wb_error w p = None \<and> r = Inr () \<and> fs w' = (fs w)(p \<mapsto> File content)
        \<and> trace w' = trace w @ [Write p content])
   \<or> (\<exists>x. open_wb_error w p = Some x \<and> r = Inl (Raised x) \<and> w' = w)"
  by (auto simp: open_wb_write_def emit_def split: option.splits)

lemma open_wb_error_fs: "fs w1 = fs w \<Longrightarrow> open_wb_error w1 p = open_wb_error w p"
  unfolding open_wb_error_def parent_error_def os_path_isdir_def by (erule arg_cong) 

text \<open>What one call of \<open>get_wnid\<close> can do to the files: nothing, or create its own file.\<close>

lemma get_wnid_fs:
  assumes "get_wnid e c wnid release src w = (r, w')"
  shows "fs w' = fs w \<or> (\<exists>content. \<not> os_path_isfile w (output_file c wnid)
            \<and> open_wb_error w (output_file c wnid) = None
            \<and> r = Inr (output_file c wnid)
            \<and> fs w' = (fs w)(output_file c wnid \<mapsto> File content))"
proof (cases "os_path_isfile w (output_file c wnid)")
  case True
  with assms show ?thesis by (simp add: get_wnid_def)
next
  case nf: False
  show ?thesis
  proof (cases "build_url e c (synset_original_url c @ ''?'') None (Some (request_params e wnid release src))")
    case (Inl err)
    with nf assms show ?thesis by (simp add: get_wnid_def)
  next
    case (Inr url)
    obtain r1 w1 where d: "download_wnid e c url w = (r1, w1)" by (cases "download_wnid e c url w")
    note o = download_wnid_outcome[OF d]
    show ?thesis
    proof (cases r1)
      case (Inl err)
      with nf assms Inr d o(1) show ?thesis by (simp add: get_wnid_def)
    next
      case c: (Inr content)
      obtain r2 w2 where wr: "open_wb_write (output_file c wnid) content w1 = (r2, w2)"
        by (cases "open_wb_write (output_file c wnid) content w1")
      have same: "open_wb_error w1 (output_file c wnid) = open_wb_error w (output_file c wnid)"
        using o(1) by (rule open_wb_error_fs)
      from nf assms Inr d c wr have res: "(r, w') = (case r2 of Inl err \<Rightarrow> (Inl err, w2) | Inr u \<Rightarrow> (Inr (output_file c wnid), w2))"
        by (simp add: get_wnid_def split: sum.splits)
      from open_wb_write_cases[OF wr] show ?thesis
      proof
        assume "open_wb_error w1 (output_file c wnid) = None \<and> r2 = Inr () \<and> fs w2 = (fs w1)(output_file c wnid \<mapsto> File content)
        \<and> trace w2 = trace w1 @ [Write (output_file c wnid) content]"
        with res nf same o(1) show ?thesis by auto
      next
        assume "\<exists>x. open_wb_error w1 (output_file c wnid) = Some x \<and> r2 = Inl (Raised x) \<and> w2 = w1"
        with res o(1) show ?thesis by auto
      qed
    qed
  qed
qed

lemma get_wnid_keeps:
  assumes "get_wnid e c wnid release src w = (r, w')" and "fs w p \<noteq> None"
  shows "fs w' p = fs w p"
proof -
  from get_wnid_fs[OF assms(1)] show ?thesis
  proof
    assume "fs w' = fs w" then show ?thesis by simp
  next
    assume "\<exists>content. \<not> os_path_isfile w (output_file c wnid)
            \<and> open_wb_error w (output_file c wnid) = None
            \<and> r = Inr (output_file c wnid)
            \<and> fs w' = (fs w)(output_file c wnid \<mapsto> File content)"
    then obtain content where h: "\<not> os_path_isfile w (output_file c wnid)"
       "open_wb_error w (output_file c wnid) = None"
       "fs w' = (fs w)(output_file c wnid \<mapsto> File content)" by blast
    have "p \<noteq> output_file c wnid"
    proof
      assume "p = output_file c wnid"
      with assms(2) obtain y where y: "fs w (output_file c wnid) = Some y" by auto
      show False
      proof (cases y)
        case (File b)
        with y h(1) show False by (simp add: isfile_iff)
      next
        case Dir
        with y h(2) show False
          by (simp add: open_wb_error_def isdir_iff split: option.splits)
      qed
    qed
    with h(3) show ?thesis by simp
  qed
qed

lemma get_each_keeps:
  "get_each e c release src es w = (r, w') \<Longrightarrow> fs w p \<noteq> None \<Longrightarrow> fs w' p = fs w p"
proof (induction es arbitrary: w)
  case Nil
  then show ?case by simp
next
  case (Cons a es)
  show ?case
  proof (cases a)
    case (Inl x)
    with Cons.prems show ?thesis by simp
  next
    case (Inr wnid)
    obtain r1 w1 where g: "get_wnid e c wnid release src w = (r1, w1)"
      by (cases "get_wnid e c wnid release src w")
    note k = get_wnid_keeps[OF g Cons.prems(2)]
    show ?thesis
    proof (cases r1)
      case (Inl err)
      with Cons.prems Inr g k show ?thesis by simp
    next
      case r: (Inr f)
      with Cons.prems Inr g have "get_each e c release src es w1 = (r, w')" by simp
      from Cons.IH[OF this] k Cons.prems(2) show ?thesis by simp
    qed
  qed
qed

lemma read_loop_get_each:
  "read_loop e c release src unread w = get_each e c release src (manifest_wnids unread) w"
proof (induction e c release src unread w rule: read_loop.induct)
  case (1 e c release src unread w)
  let ?line = "fst (readline unread)"
  show ?case
  proof (cases "?line = []")
    case True
    then have "manifest_wnids unread = []"
      by (subst manifest_wnids_def, subst manifest_lines.simps) simp
    moreover have "bytes_strip ?line = []" using True by (simp add: bytes_strip_def)
    ultimately show ?thesis using True
      by (subst read_loop.simps) simp
  next
    case ne: False
    have ml: "manifest_lines unread = ?line # manifest_lines (snd (readline unread))"
      using ne by (subst manifest_lines.simps) simp
    show ?thesis
    proof (cases "bytes_strip ?line = []")
      case True
      then have mw: "manifest_wnids unread = manifest_wnids (snd (readline unread))"
        by (simp add: manifest_wnids_def ml)
      have "read_loop e c release src unread w = read_loop e c release src (snd (readline unread)) w"
        using True ne by (subst read_loop.simps) simp
      also have "\<dots> = get_each e c release src (manifest_wnids (snd (readline unread))) w"
        using "1.IH"[of "Inr ()" w "()"] True ne by simp
      finally show ?thesis using mw by simp
    next
      case nb: False
      show ?thesis
      proof (cases "decode ?line")
        case (Inl x)
        then have "manifest_wnids unread = Inl x # manifest_wnids (snd (readline unread))"
          using nb by (simp add: manifest_wnids_def ml)
        moreover have "read_loop e c release src unread w = (Inl (Raised x), w)"
          using nb Inl by (subst read_loop.simps) simp
        ultimately show ?thesis by simp
      next
        case (Inr s)
        then have mw: "manifest_wnids unread = Inr (str_strip s) # manifest_wnids (snd (readline unread))"
          using nb by (simp add: manifest_wnids_def ml)
        obtain r1 w1 where g: "get_wnid e c (str_strip s) release src w = (r1, w1)"
          by (cases "get_wnid e c (str_strip s) release src w")
        show ?thesis
        proof (cases r1)
          case (Inl err)
          then have "read_loop e c release src unread w = (Inl err, w1)"
            using nb Inr g by (subst read_loop.simps) simp
          with mw g Inl show ?thesis by simp
        next
          case f: (Inr f)
          have "read_loop e c release src unread w = read_loop e c release src (snd (readline unread)) w1"
            using nb Inr g f ne by (subst read_loop.simps) simp
          also have "\<dots> = get_each e c release src (manifest_wnids (snd (readline unread))) w1"
            using "1.IH"[of "Inr ()" w1 "()"] nb Inr g f ne by simp
          finally show ?thesis using mw g f by simp
        qed
      qed
    qed
  qed
qed

lemma get_wnid_skip:
  "os_path_isfile w (output_file c wnid) \<Longrightarrow>
     get_wnid e c wnid release src w = (Inr (output_file c wnid), w)"
  by (simp add: get_wnid_def)

lemma get_wnid_result:
  "get_wnid e c wnid release src w = (Inr f, w') \<Longrightarrow> f = output_file c wnid"
  by (auto simp: get_wnid_def Let_def split: if_splits sum.splits prod.splits)

lemma os_mkdir_empty: "os_mkdir [] w = (Inl (Raised FileNotFoundError), emit (Mkdir []) w)"
  by (simp add: os_mkdir_def)

lemma get_wnids_get_each:
  assumes "path c \<noteq> []"
  shows "get_wnids e c filename release src w =
     (case open_rb (case filename of
                      None \<Rightarrow> os_path_join (os_path_join (os_path_join (curr_dir e) ''data'') ''int'')
                              ''synset_list.txt''
                    | Some f \<Rightarrow> f) w of
        Inl x \<Rightarrow> (Inl (Raised x), w)
      | Inr content \<Rightarrow> get_each e c release src (manifest_wnids content) w)"
  using assms by (simp add: get_wnids_def read_loop_get_each cong: sum.case_cong)

lemma get_wnids_keeps:
  assumes "get_wnids e c filename release src w = (r, w')" and "fs w p \<noteq> None"
  shows "fs w' p = fs w p"
proof (cases "path c = []")
  case True
  with assms show ?thesis by (auto simp: get_wnids_def os_mkdir_empty)
next
  case False
  from assms(1) show ?thesis unfolding get_wnids_get_each[OF False]
    by (auto split: sum.splits dest: get_each_keeps[OF _ assms(2)])
qed

lemma get_wnid_mkdirs:
  assumes "get_wnid e c wnid release src w = (r, w')"
  shows "filter is_mkdir (trace w') = filter is_mkdir (trace w)"
proof (cases "os_path_isfile w (output_file c wnid)")
  case True
  with assms show ?thesis by (simp add: get_wnid_def)
next
  case nf: False
  show ?thesis
  proof (cases "build_url e c (synset_original_url c @ ''?'') None (Some (request_params e wnid release src))")
    case (Inl err)
    with nf assms show ?thesis by (simp add: get_wnid_def)
  next
    case (Inr url)
    obtain r1 w1 where d: "download_wnid e c url w = (r1, w1)" by (cases "download_wnid e c url w")
    from download_wnid_outcome(2)[OF d] obtain evs where
      evs: "trace w1 = trace w @ evs" "list_all (\<lambda>ev. is_urlopen ev \<or> is_sleep ev) evs" by blast
    have "filter is_mkdir evs = []"
      using evs(2) by (induction evs) (auto elim: is_urlopen.elims is_sleep.elims)
    with evs(1) have t1: "filter is_mkdir (trace w1) = filter is_mkdir (trace w)" by simp
    show ?thesis
    proof (cases r1)
      case (Inl err)
      with nf assms Inr d t1 show ?thesis by (simp add: get_wnid_def)
    next
      case c: (Inr content)
      obtain r2 w2 where wr: "open_wb_write (output_file c wnid) content w1 = (r2, w2)"
        by (cases "open_wb_write (output_file c wnid) content w1")
      from nf assms Inr d c wr have "w' = w2"
        by (simp add: get_wnid_def split: sum.splits)
      with open_wb_write_cases[OF wr] t1 show ?thesis by auto
    qed
  qed
qed

lemma get_wnid_isdir:
  assumes "get_wnid e c wnid release src w = (r, w')"
  shows "os_path_isdir w' p = os_path_isdir w p"
proof -
  from get_wnid_fs[OF assms] show ?thesis
  proof
    assume "fs w' = fs w" then show ?thesis by (simp add: isdir_iff)
  next
    assume "\<exists>content. \<not> os_path_isfile w (output_file c wnid)
            \<and> open_wb_error w (output_file c wnid) = None
            \<and> r = Inr (output_file c wnid)
            \<and> fs w' = (fs w)(output_file c wnid \<mapsto> File content)"
    then obtain content where h: "open_wb_error w (output_file c wnid) = None"
       "fs w' = (fs w)(output_file c wnid \<mapsto> File content)" by blast
    from h(1) have "\<not> os_path_isdir w (output_file c wnid)"
      by (auto simp: open_wb_error_def split: option.splits if_splits)
    with h(2) show ?thesis by (auto simp: isdir_iff)
  qed
qed

lemma get_each_dirs:
  "get_each e c release src es w = (r, w') \<Longrightarrow>
     filter is_mkdir (trace w') = filter is_mkdir (trace w)
     \<and> (\<forall>p. os_path_isdir w' p = os_path_isdir w p)"
proof (induction es arbitrary: w)
  case Nil
  then show ?case by simp
next
  case (Cons a es)
  show ?case
  proof (cases a)
    case (Inl x)
    with Cons.prems show ?thesis by simp
  next
    case (Inr wnid)
    obtain r1 w1 where g: "get_wnid e c wnid release src w = (r1, w1)"
      by (cases "get_wnid e c wnid release src w")
    note k = get_wnid_mkdirs[OF g] get_wnid_isdir[OF g]
    show ?thesis
    proof (cases r1)
      case (Inl err)
      with Cons.prems Inr g k show ?thesis by simp
    next
      case r: (Inr f)
      with Cons.prems Inr g have "get_each e c release src es w1 = (r, w')" by simp
      from Cons.IH[OF this] k show ?thesis by simp
    qed
  qed
qed

lemma get_wnids_dirs:
  assumes "path c \<noteq> []" and "get_wnids e c filename release src w = (r, w')"
  shows "filter is_mkdir (trace w') = filter is_mkdir (trace w)
     \<and> (\<forall>p. os_path_isdir w' p = os_path_isdir w p)"
  using assms(2) unfolding get_wnids_get_each[OF assms(1)]
  by (auto split: sum.splits dest: get_each_dirs)

lemma dirname_nonempty:
  assumes "CHR ''/'' \<in> set p"
  shows "os_path_dirname p \<noteq> []"
proof -
  define head where "head = rev (dropWhile (\<lambda>ch. ch \<noteq> CHR ''/'') (rev p))"
  from assms have "dropWhile (\<lambda>ch. ch \<noteq> CHR ''/'') (rev p) \<noteq> []"
    by (simp add: dropWhile_eq_Nil_conv)
  then have ne: "head \<noteq> []" by (simp add: head_def)
  have "\<not> list_all (\<lambda>ch. ch = CHR ''/'') head \<Longrightarrow> rev (dropWhile (\<lambda>ch. ch = CHR ''/'') (rev head)) \<noteq> []"
    by (auto simp: dropWhile_eq_Nil_conv list_all_iff)
  with ne show ?thesis unfolding os_path_dirname_def Let_def head_def[symmetric] by auto
qed

lemma output_file_has_slash:
  assumes "path c \<noteq> []"
  shows "CHR ''/'' \<in> set (output_file c wnid)"
proof (cases "wnid @ ''.tar''")
  case Nil
  then show ?thesis by simp
next
  case (Cons a as)
  then show ?thesis using assms
    by (cases "path c" rule: rev_cases) (auto simp: output_file_def os_path_join_def)
qed

lemma output_file_plain:
  assumes "path c \<noteq> []" "last (path c) \<noteq> CHR ''/''" "take 1 wnid \<noteq> ''/''"
  shows "output_file c wnid = path c @ ''/'' @ wnid @ ''.tar''"
  using assms by (cases wnid) (auto simp: output_file_def os_path_join_def)

lemma dirname_plain:
  assumes "path c \<noteq> []" "last (path c) \<noteq> CHR ''/''" "CHR ''/'' \<notin> set wnid"
  shows "os_path_dirname (output_file c wnid) = path c"
proof -
  from assms(3) have "take 1 wnid \<noteq> ''/''" by (cases wnid) auto
  from output_file_plain[OF assms(1,2) this]
  have f: "output_file c wnid = (path c @ ''/'') @ (wnid @ ''.tar'')" by simp
  have ns: "CHR ''/'' \<notin> set (wnid @ ''.tar'')" using assms(3) by simp
  have "dropWhile (\<lambda>ch. ch \<noteq> CHR ''/'') (rev (wnid @ ''.tar'') @ rev (path c @ ''/''))
      = dropWhile (\<lambda>ch. ch \<noteq> CHR ''/'') (rev (path c @ ''/''))"
    using ns by (intro dropWhile_append2) auto
  then have head: "rev (dropWhile (\<lambda>ch. ch \<noteq> CHR ''/'') (rev (output_file c wnid))) = path c @ ''/''"
    unfolding f by simp
  obtain ys y where p: "path c = ys @ [y]" "y \<noteq> CHR ''/''"
    using assms(1,2) by (cases "path c" rule: rev_cases) auto
  show ?thesis unfolding os_path_dirname_def Let_def head
    using p by (simp add: list_all_iff)
qed

lemma get_wnid_download:
  assumes "\<not> os_path_isfile w (output_file c wnid)"
    and "build_url e c (synset_original_url c @ ''?'') None
           (Some (request_params e wnid release src)) = Inr url"
    and "download_wnid e c url w = (Inr content, w1)"
  shows "get_wnid e c wnid release src w =
     (case open_wb_error w (output_file c wnid) of
        Some x \<Rightarrow> (Inl (Raised x), w1)
      | None \<Rightarrow> (Inr (output_file c wnid),
                 emit (Write (output_file c wnid) content)
                   (w1\<lparr>fs := (fs w)(output_file c wnid \<mapsto> File content)\<rparr>)))"
proof -
  have same: "fs w1 = fs w" by (rule download_wnid_outcome(1)[OF assms(3)])
  then have "open_wb_error w1 (output_file c wnid) = open_wb_error w (output_file c wnid)"
    by (rule open_wb_error_fs)
  with assms same show ?thesis
    by (simp add: get_wnid_def open_wb_write_def Let_def split: option.splits)
qed

lemma get_wnid_no_directory:
  assumes "\<not> os_path_isfile w (output_file c wnid)"
    and "open_wb_error w (output_file c wnid) = Some x"
  shows "\<exists>err. fst (get_wnid e c wnid release src w) = Inl err"
proof (cases "build_url e c (synset_original_url c @ ''?'') None (Some (request_params e wnid release src))")
  case (Inl err)
  with assms(1) show ?thesis by (simp add: get_wnid_def)
next
  case (Inr url)
  obtain r1 w1 where d: "download_wnid e c url w = (r1, w1)" by (cases "download_wnid e c url w")
  show ?thesis
  proof (cases r1)
    case (Inl err)
    with assms(1) Inr d show ?thesis by (simp add: get_wnid_def)
  next
    case c: (Inr content)
    from get_wnid_download[OF assms(1) Inr d[unfolded c]] assms(2) show ?thesis by simp
  qed
qed

lemma parent_error_missing:
  assumes "os_path_dirname p \<noteq> []" and "\<not> os_path_isdir w (os_path_dirname p)"
  shows "open_wb_error w p =
     Some (if os_path_isfile w (os_path_dirname p) then NotADirectoryError else FileNotFoundError)"
  using assms
  by (auto simp: open_wb_error_def parent_error_def isdir_iff isfile_iff
      split: option.splits node.splits)

lemma get_wnid_fresh:
  assumes nf: "\<not> os_path_isfile w (output_file c wnid)"
    and g: "get_wnid e c wnid release src w = (Inr f, w')"
  shows "\<exists>content. fs w' = (fs w)(output_file c wnid \<mapsto> File content)"
proof -
  from nf g obtain url where u: "build_url e c (synset_original_url c @ ''?'') None
         (Some (request_params e wnid release src)) = Inr url"
    by (cases "build_url e c (synset_original_url c @ ''?'') None
         (Some (request_params e wnid release src))") (auto simp: get_wnid_def)
  obtain r1 w1 where d: "download_wnid e c url w = (r1, w1)" by (cases "download_wnid e c url w")
  from nf g u d obtain content where c: "r1 = Inr content"
    by (cases r1) (auto simp: get_wnid_def)
  from get_wnid_download[OF nf u d[unfolded c]] g
  have "fs w' = (fs w)(output_file c wnid \<mapsto> File content)"
    by (auto simp: emit_def split: option.splits)
  then show ?thesis ..
qed


text \<open>
  C1. When the output file of an identifier exists, \<^verbatim>\<open>get_wnid\<close> for that identifier returns
  the file's path and leaves the world as it was: the trace gains no event, so there is no
  call of \<^verbatim>\<open>urlopen\<close> and no write, and no file changes. Moreover, no call of \<^verbatim>\<open>get_wnid\<close>
  (for any identifier) and no run of \<^verbatim>\<open>get_wnids\<close> that starts in such a world changes the
  bytes of that file.
\<close>

theorem existing_output_file_untouched:
  assumes "fs w (output_file c wnid) = Some (File b)"
  shows "get_wnid e c wnid release src w = (Inr (output_file c wnid), w)
     \<and> (\<forall>wnid' release' src'.
           fs (snd (get_wnid e c wnid' release' src' w)) (output_file c wnid) = Some (File b))
     \<and> (\<forall>filename release' src'.
           fs (snd (get_wnids e c filename release' src' w)) (output_file c wnid) = Some (File b))"
proof -
  from assms have "os_path_isfile w (output_file c wnid)" by (simp add: isfile_iff)
  then have "get_wnid e c wnid release src w = (Inr (output_file c wnid), w)"
    by (rule get_wnid_skip)
  moreover have "fs (snd (get_wnid e c wnid' release' src' w)) (output_file c wnid) = Some (File b)"
    for wnid' release' src'
    using get_wnid_keeps[of e c wnid' release' src' w _ _ "output_file c wnid"] assms
    by (cases "get_wnid e c wnid' release' src' w") simp
  moreover have "fs (snd (get_wnids e c filename release' src' w)) (output_file c wnid) = Some (File b)"
    for filename release' src'
    using get_wnids_keeps[of e c filename release' src' w _ _ "output_file c wnid"] assms
    by (cases "get_wnids e c filename release' src' w") simp
  ultimately show ?thesis by blast
qed

theorem existing_output_file_untouched_witness:
  "get_wnid (network_of (\<lambda>k. Body ''new'')) example_config ''n01440764'' ''latest'' ''stanford''
       downloaded_world
     = (Inr ''out/n01440764.tar'', downloaded_world)
   \<and> fs (snd (get_wnids (network_of (\<lambda>k. Body ''new'')) example_config (Some ''list.txt'')
                ''latest'' ''stanford'' downloaded_world)) ''out/n01440764.tar''
     = Some (File ''old'')"
proof -
  have f: "output_file example_config ''n01440764'' = ''out/n01440764.tar''"
    by (simp add: output_file_def os_path_join_def example_config_def)
  have "fs downloaded_world (output_file example_config ''n01440764'') = Some (File ''old'')"
    unfolding f by (simp add: downloaded_world_def)
  from existing_output_file_untouched[OF this, of "network_of (\<lambda>k. Body ''new'')" "''latest''" "''stanford''"]
  show ?thesis unfolding f by blast
qed





text \<open>
  C6. Let the output path be non-empty and the manifest hold the three identifiers
  \<open>id1\<close>, \<open>id2\<close>, \<open>id3\<close>, none with an output file yet, the output files of \<open>id2\<close> and
  \<open>id3\<close> different from that of \<open>id1\<close>. Let \<^verbatim>\<open>get_wnid\<close> succeed for \<open>id1\<close> and let the fetch
  for \<open>id2\<close> raise \<^verbatim>\<open>DownloadError\<close>. Then \<^verbatim>\<open>get_wnids\<close> raises that same \<^verbatim>\<open>DownloadError\<close>,
  in the world the fetch left: the output file of \<open>id1\<close> is there, and those of \<open>id2\<close> and
  \<open>id3\<close> are as they were before the run, so not written.
\<close>

theorem batch_stops_at_download_error:
  assumes "path c \<noteq> []"
    and "open_rb manifest w = Inr content"
    and "manifest_wnids content = [Inr id1, Inr id2, Inr id3]"
    and "\<not> os_path_isfile w (output_file c id1)"
    and "\<not> os_path_isfile w (output_file c id2)"
    and "\<not> os_path_isfile w (output_file c id3)"
    and "output_file c id2 \<noteq> output_file c id1"
    and "output_file c id3 \<noteq> output_file c id1"
    and "get_wnid e c id1 release src w = (Inr f1, w1)"
    and "build_url e c (synset_original_url c @ ''?'') None
           (Some (request_params e id2 release src)) = Inr url2"
    and "download_wnid e c url2 w1 = (Inl (DownloadError m ctx), w2)"
  shows "get_wnids e c (Some manifest) release src w = (Inl (DownloadError m ctx), w2)
     \<and> os_path_isfile w2 (output_file c id1)
     \<and> \<not> os_path_isfile w2 (output_file c id3)
     \<and> fs w2 (output_file c id3) = fs w (output_file c id3)
     \<and> fs w2 (output_file c id2) = fs w (output_file c id2)"
proof -
  from get_wnid_fresh[OF assms(4,9)] obtain content1 where
    w1: "fs w1 = (fs w)(output_file c id1 \<mapsto> File content1)" by blast
  have fs2: "fs w2 = fs w1" by (rule download_wnid_outcome(1)[OF assms(11)])
  have nf2: "\<not> os_path_isfile w1 (output_file c id2)"
    using assms(5,7) w1 by (simp add: isfile_iff)
  have g2: "get_wnid e c id2 release src w1 = (Inl (DownloadError m ctx), w2)"
    using nf2 assms(10,11) by (simp add: get_wnid_def)
  have "get_wnids e c (Some manifest) release src w
      = get_each e c release src [Inr id1, Inr id2, Inr id3] w"
    using assms(2,3) by (simp add: get_wnids_get_each[OF assms(1)])
  also have "\<dots> = (Inl (DownloadError m ctx), w2)"
    using assms(9) g2 by simp
  finally have run: "get_wnids e c (Some manifest) release src w = (Inl (DownloadError m ctx), w2)" .
  have "os_path_isfile w2 (output_file c id1)"
    using fs2 w1 by (simp add: isfile_iff)
  moreover have 3: "fs w2 (output_file c id3) = fs w (output_file c id3)"
    using fs2 w1 assms(8) by simp
  moreover have "\<not> os_path_isfile w2 (output_file c id3)"
    using 3 assms(6) by (simp add: isfile_iff)
  moreover have "fs w2 (output_file c id2) = fs w (output_file c id2)"
    using fs2 w1 assms(7) by simp
  ultimately show ?thesis using run by blast
qed

theorem batch_stops_at_download_error_witness:
  "fst (get_wnids (network_of (\<lambda>k. if k = 0 then Body ''tar bytes'' else Raises TimeoutError))
          example_config (Some ''list.txt'') ''latest'' ''stanford'' example_world)
     = Inl (DownloadError [] (Some TimeoutError))
   \<and> os_path_isfile
        (snd (get_wnids (network_of (\<lambda>k. if k = 0 then Body ''tar bytes'' else Raises TimeoutError))
          example_config (Some ''list.txt'') ''latest'' ''stanford'' example_world))
        ''out/n01440764.tar''
   \<and> \<not> os_path_isfile
        (snd (get_wnids (network_of (\<lambda>k. if k = 0 then Body ''tar bytes'' else Raises TimeoutError))
          example_config (Some ''list.txt'') ''latest'' ''stanford'' example_world))
        ''out/n01484850.tar''"
proof -
  let ?e = "network_of (\<lambda>k. if k = 0 then Body ''tar bytes'' else Raises TimeoutError)"
  let ?url2 = "''http://www.image-net.org/download/synset?wnid=n01443537&username=user&accesskey=key&release=latest&src=stanford''"
  let ?w1 = "snd (get_wnid ?e example_config ''n01440764'' ''latest'' ''stanford'' example_world)"
  have f: "output_file example_config ''n01440764'' = ''out/n01440764.tar''"
     "output_file example_config ''n01443537'' = ''out/n01443537.tar''"
     "output_file example_config ''n01484850'' = ''out/n01484850.tar''"
    by (simp_all add: output_file_def os_path_join_def example_config_def)
  have 1: "path example_config \<noteq> []" by (simp add: example_config_def)
  have 2: "open_rb ''list.txt'' example_world = Inr example_manifest"
    by (simp add: open_rb_def example_world_def)
  have 3: "manifest_wnids example_manifest = [Inr ''n01440764'', Inr ''n01443537'', Inr ''n01484850'']"
    by code_simp
  have 4: "\<not> os_path_isfile example_world (output_file example_config ''n01440764'')"
    "\<not> os_path_isfile example_world (output_file example_config ''n01443537'')"
    "\<not> os_path_isfile example_world (output_file example_config ''n01484850'')"
    unfolding f by (simp_all add: example_world_def os_path_isfile_def)
  have 5: "output_file example_config ''n01443537'' \<noteq> output_file example_config ''n01440764''"
    "output_file example_config ''n01484850'' \<noteq> output_file example_config ''n01440764''"
    unfolding f by simp_all
  have "fst (get_wnid ?e example_config ''n01440764'' ''latest'' ''stanford'' example_world)
      = Inr ''out/n01440764.tar''"
    by code_simp
  then have 6: "get_wnid ?e example_config ''n01440764'' ''latest'' ''stanford'' example_world
      = (Inr ''out/n01440764.tar'', ?w1)"
    by (metis prod.collapse)
  have 7: "build_url ?e example_config (synset_original_url example_config @ ''?'') None
           (Some (request_params ?e ''n01443537'' ''latest'' ''stanford'')) = Inr ?url2"
    by code_simp
  have "fst (download_wnid ?e example_config ?url2 ?w1) = Inl (DownloadError [] (Some TimeoutError))"
    by code_simp
  then have 8: "download_wnid ?e example_config ?url2 ?w1
      = (Inl (DownloadError [] (Some TimeoutError)), snd (download_wnid ?e example_config ?url2 ?w1))"
    by (metis prod.collapse)
  from batch_stops_at_download_error[OF 1 2 3 4 5 6 7 8] show ?thesis
    unfolding f by simp
qed

text \<open>
  C10. With a non-empty output path, a run of \<^verbatim>\<open>get_wnids\<close> calls \<^verbatim>\<open>os.mkdir\<close> not once and
  leaves the directories as they were. With an empty output path it calls \<^verbatim>\<open>os.mkdir\<close> on
  the empty path, which raises \<^verbatim>\<open>FileNotFoundError\<close>, and does nothing else. With a non-empty
  output path, when the directory of an identifier's output file is missing (and the file
  too), \<^verbatim>\<open>get_wnid\<close> raises and changes no file; when its fetch succeeds, the error is that
  of \<^verbatim>\<open>open\<close>, raised at the write. For an output path that does not end with a slash and
  an identifier without a slash, that directory is the output path itself.
\<close>

theorem output_directory_never_created:
  "(path c \<noteq> [] \<and> get_wnids e c filename release src w = (r, w') \<longrightarrow>
       filter is_mkdir (trace w') = filter is_mkdir (trace w)
       \<and> (\<forall>p. os_path_isdir w' p = os_path_isdir w p))
   \<and> (path c = [] \<longrightarrow>
         get_wnids e c filename release src w
           = (Inl (Raised FileNotFoundError), emit (Mkdir []) w))
   \<and> (path c \<noteq> [] \<and> \<not> os_path_isfile w (output_file c wnid)
        \<and> \<not> os_path_isdir w (os_path_dirname (output_file c wnid)) \<longrightarrow>
         (\<exists>err. fst (get_wnid e c wnid release src w) = Inl err)
         \<and> fs (snd (get_wnid e c wnid release src w)) = fs w
         \<and> (\<forall>url content w1.
               build_url e c (synset_original_url c @ ''?'') None
                 (Some (request_params e wnid release src)) = Inr url
               \<and> download_wnid e c url w = (Inr content, w1) \<longrightarrow>
               get_wnid e c wnid release src w
                 = (Inl (Raised (if os_path_isfile w (os_path_dirname (output_file c wnid))
                                 then NotADirectoryError else FileNotFoundError)), w1)))
   \<and> (path c \<noteq> [] \<and> last (path c) \<noteq> CHR ''/'' \<and> CHR ''/'' \<notin> set wnid \<longrightarrow>
         os_path_dirname (output_file c wnid) = path c)"
proof (intro conjI impI)
  assume "path c \<noteq> [] \<and> get_wnids e c filename release src w = (r, w')"
  then show "filter is_mkdir (trace w') = filter is_mkdir (trace w)"
    and "\<forall>p. os_path_isdir w' p = os_path_isdir w p"
    using get_wnids_dirs by blast+
next
  assume "path c = []"
  then show "get_wnids e c filename release src w
           = (Inl (Raised FileNotFoundError), emit (Mkdir []) w)"
    by (simp add: get_wnids_def os_mkdir_empty)
next
  assume a: "path c \<noteq> [] \<and> \<not> os_path_isfile w (output_file c wnid)
        \<and> \<not> os_path_isdir w (os_path_dirname (output_file c wnid))"
  then have d: "os_path_dirname (output_file c wnid) \<noteq> []"
    by (intro dirname_nonempty output_file_has_slash) simp
  from a have nf: "\<not> os_path_isfile w (output_file c wnid)" by simp
  from parent_error_missing[OF d] a
  have err: "open_wb_error w (output_file c wnid) =
     Some (if os_path_isfile w (os_path_dirname (output_file c wnid))
           then NotADirectoryError else FileNotFoundError)" by simp
  show "\<exists>err. fst (get_wnid e c wnid release src w) = Inl err"
    by (rule get_wnid_no_directory[OF nf err])
  show "fs (snd (get_wnid e c wnid release src w)) = fs w"
    using get_wnid_fs[of e c wnid release src w] err
    by (cases "get_wnid e c wnid release src w") auto
  show "\<forall>url content w1.
               build_url e c (synset_original_url c @ ''?'') None
                 (Some (request_params e wnid release src)) = Inr url
               \<and> download_wnid e c url w = (Inr content, w1) \<longrightarrow>
               get_wnid e c wnid release src w
                 = (Inl (Raised (if os_path_isfile w (os_path_dirname (output_file c wnid))
                                 then NotADirectoryError else FileNotFoundError)), w1)"
    using get_wnid_download[OF nf] err by auto
next
  assume "path c \<noteq> [] \<and> last (path c) \<noteq> CHR ''/'' \<and> CHR ''/'' \<notin> set wnid"
  then show "os_path_dirname (output_file c wnid) = path c"
    using dirname_plain by blast
qed

theorem output_directory_never_created_witness:
  "fst (get_wnid (network_of (\<lambda>k. Body ''tar bytes'')) example_config ''n01440764'' ''latest''
          ''stanford'' bare_world) = Inl (Raised FileNotFoundError)
   \<and> fs (snd (get_wnid (network_of (\<lambda>k. Body ''tar bytes'')) example_config ''n01440764'' ''latest''
          ''stanford'' bare_world)) = fs bare_world
   \<and> os_path_dirname (output_file example_config ''n01440764'') = path example_config
   \<and> \<not> os_path_isdir
         (snd (get_wnids (network_of (\<lambda>k. Body ''tar bytes'')) example_config (Some ''list.txt'')
            ''latest'' ''stanford'' bare_world)) ''out''
   \<and> get_wnids (network_of (\<lambda>k. Body ''tar bytes'')) (example_config\<lparr>path := []\<rparr>)
         (Some ''list.txt'') ''latest'' ''stanford'' bare_world
       = (Inl (Raised FileNotFoundError), emit (Mkdir []) bare_world)"
proof -
  let ?e = "network_of (\<lambda>k. Body ''tar bytes'')"
  let ?url = "''http://www.image-net.org/download/synset?wnid=n01440764&username=user&accesskey=key&release=latest&src=stanford''"
  let ?w1 = "snd (download_wnid ?e example_config ?url bare_world)"
  let ?w' = "snd (get_wnids ?e example_config (Some ''list.txt'') ''latest'' ''stanford'' bare_world)"
  have p: "path example_config \<noteq> []" "last (path example_config) \<noteq> CHR ''/''"
     "CHR ''/'' \<notin> set ''n01440764''" "path example_config = ''out''"
    by (simp_all add: example_config_def)
  have f: "output_file example_config ''n01440764'' = ''out/n01440764.tar''"
    by (simp add: output_file_def os_path_join_def example_config_def)
  note T = output_directory_never_created[of example_config ?e "Some ''list.txt''" "''latest''"
      "''stanford''" bare_world "fst (get_wnids ?e example_config (Some ''list.txt'') ''latest''
         ''stanford'' bare_world)" ?w' "''n01440764''"]
  from T p have dn: "os_path_dirname (output_file example_config ''n01440764'') = path example_config"
    by blast
  have nf: "\<not> os_path_isfile bare_world (output_file example_config ''n01440764'')"
    unfolding f by (simp add: bare_world_def os_path_isfile_def)
  have nd: "\<not> os_path_isdir bare_world (os_path_dirname (output_file example_config ''n01440764''))"
    unfolding dn p(4) by (simp add: bare_world_def os_path_isdir_def)
  have nfd: "\<not> os_path_isfile bare_world (os_path_dirname (output_file example_config ''n01440764''))"
    unfolding dn p(4) by (simp add: bare_world_def os_path_isfile_def)
  have b: "build_url ?e example_config (synset_original_url example_config @ ''?'') None
           (Some (request_params ?e ''n01440764'' ''latest'' ''stanford'')) = Inr ?url"
    by code_simp
  have "fst (download_wnid ?e example_config ?url bare_world) = Inr ''tar bytes''"
    by (simp add: download_wnid_def download_loop.simps network_of_def)
  then have d: "download_wnid ?e example_config ?url bare_world = (Inr ''tar bytes'', ?w1)"
    by (metis prod.collapse)
  from T p(1) nf nd
  have "\<forall>url content w1.
      build_url ?e example_config (synset_original_url example_config @ ''?'') None
        (Some (request_params ?e ''n01440764'' ''latest'' ''stanford'')) = Inr url
      \<and> download_wnid ?e example_config url bare_world = (Inr content, w1) \<longrightarrow>
      get_wnid ?e example_config ''n01440764'' ''latest'' ''stanford'' bare_world
        = (Inl (Raised (if os_path_isfile bare_world
                             (os_path_dirname (output_file example_config ''n01440764''))
                        then NotADirectoryError else FileNotFoundError)), w1)"
    by blast
  with b d nfd
  have 1: "get_wnid ?e example_config ''n01440764'' ''latest'' ''stanford'' bare_world
      = (Inl (Raised FileNotFoundError), ?w1)"
    by simp
  from T p(1) nf nd
  have 2: "fs (snd (get_wnid ?e example_config ''n01440764'' ''latest'' ''stanford'' bare_world))
      = fs bare_world"
    by blast
  from T p(1) have "os_path_isdir ?w' ''out'' = os_path_isdir bare_world ''out''"
    by (metis prod.collapse)
  then have 3: "\<not> os_path_isdir ?w' ''out''"
    by (simp add: bare_world_def os_path_isdir_def)
  have "path (example_config\<lparr>path := []\<rparr>) = []" by simp
  with output_directory_never_created[of "example_config\<lparr>path := []\<rparr>" ?e "Some ''list.txt''"
      "''latest''" "''stanford''" bare_world]
  have 4: "get_wnids ?e (example_config\<lparr>path := []\<rparr>) (Some ''list.txt'') ''latest'' ''stanford''
      bare_world = (Inl (Raised FileNotFoundError), emit (Mkdir []) bare_world)"
    by blast
  from 1 2 dn 3 4 show ?thesis by simp
qed

end
